theory Spec2Isabelle
  imports Complex_Main "HOL-Library.AList"
begin

section \<open>Data model of Embedding.py\<close>

text \<open>
  Vectors are numpy arrays of floats, modelled as lists of reals: the floating-point
  arithmetic of the script is idealised to exact real arithmetic, except in the pass on
  float32 buffers below, which rounds every sum. The only non-finite
  value the model tracks is NaN, where numpy computes 0/0 or the mean of nothing: it is
  the value \<open>None\<close> of an option.

  All arrays of a run have the one dimension \<open>d\<close>, so the elementwise operations
  are written with \<open>map2\<close>; that the shapes stay equal is part of the invariant
  \<open>consistent\<close> below.

  A Python dict is an association list in insertion order; \<open>AList.update\<close> is the
  assignment \<open>D[k] = v\<close> (an existing key keeps its position, a new key goes last) and
  \<open>map_of\<close> the lookup. The keys of the JSON object \<open>Edges\<close> are taken after int().
\<close>

type_synonym vec = "real list"
type_synonym 'v dict = "(int \<times> 'v) list"
type_synonym edges = "(int \<times> int list) list"

datatype error = KeyError int | ValueError int | IndexError int | ProjectionError

definition EMBEDDING_SIZE :: nat where
  "EMBEDDING_SIZE = 32"

definition ITERATION_COUNT :: nat where
  "ITERATION_COUNT = 100"

definition EPSILON :: real where
  "EPSILON = 1 / 100"

text \<open>np.linalg.norm(x, ord=2) of a vector, np.zeros, elementwise + and -, np.mean.\<close>

definition linalg_norm :: "vec \<Rightarrow> real" where
  "linalg_norm v = sqrt (sum_list (map (\<lambda>x. x * x) v))"

definition zeros :: "nat \<Rightarrow> vec" where
  "zeros d = replicate d 0"

definition vadd :: "vec \<Rightarrow> vec \<Rightarrow> vec" where
  "vadd u v = map2 (+) u v"

definition subtract :: "vec \<Rightarrow> vec \<Rightarrow> vec" where
  "subtract u v = map2 (-) u v"

definition np_mean :: "real list \<Rightarrow> real option" where
  "np_mean xs = (if xs = [] then None else Some (sum_list xs / real (length xs)))"

text \<open>np.mean of a list of numpy scalars, any of which may be NaN.\<close>

definition np_mean_nan :: "real option list \<Rightarrow> real option" where
  "np_mean_nan xs =
     (if xs = [] \<or> None \<in> set xs then None
      else Some (sum_list (map the xs) / real (length xs)))"

section \<open>Vector initialisation (lines 12-21)\<close>

text \<open>
  The random generator is the function \<open>sample\<close>: its value at \<open>i\<close> is the array the
  \<open>i\<close>-th call of np.random.uniform returns. The loop makes one call per node and divides
  the array by its norm; for an array of norm zero every component is 0/0, a vector of NaN,
  modelled as \<open>None\<close>.
\<close>

definition rescale :: "vec \<Rightarrow> vec option" where
  "rescale s = (if linalg_norm s = 0 then None else Some (map (\<lambda>x. x / linalg_norm s) s))"

fun Initialize_loop :: "(nat \<Rightarrow> vec) \<Rightarrow> nat \<Rightarrow> int list \<Rightarrow> vec option dict \<Rightarrow> vec option dict" where
  "Initialize_loop sample i [] D = D"
| "Initialize_loop sample i (Node_ID # Node_IDs) D =
     Initialize_loop sample (Suc i) Node_IDs (AList.update Node_ID (rescale (sample i)) D)"

definition Initialize :: "(nat \<Rightarrow> vec) \<Rightarrow> int list \<Rightarrow> vec option dict" where
  "Initialize sample Node_IDs = Initialize_loop sample 0 Node_IDs []"

definition zero_buffers :: "nat \<Rightarrow> int list \<Rightarrow> vec dict" where
  "zero_buffers d Node_IDs = fold (\<lambda>Node_ID D. AList.update Node_ID (zeros d) D) Node_IDs []"

section \<open>The diffusion loop (lines 23-40)\<close>

record state =
  Node_ID_2_Embedding :: "vec dict"
  Node_ID_2_Embedding_Temp :: "vec dict"
  Losses :: "real option list"

text \<open>
  \<open>Temp[k] += Emb[j]\<close>: Python reads \<open>Temp[k]\<close> first, then \<open>Emb[j]\<close>, adds in place
  and stores under the same key.
\<close>

definition add_to :: "vec dict \<Rightarrow> int \<Rightarrow> vec dict \<Rightarrow> int \<Rightarrow> error + vec dict" where
  "add_to Temp k Emb j =
     (case map_of Temp k of
        None \<Rightarrow> Inl (KeyError k)
      | Some t \<Rightarrow>
          (case map_of Emb j of
             None \<Rightarrow> Inl (KeyError j)
           | Some e \<Rightarrow> Inr (AList.update k (vadd t e) Temp)))"

fun accumulate_Bs :: "vec dict \<Rightarrow> int \<Rightarrow> int list \<Rightarrow> vec dict \<Rightarrow> error + vec dict" where
  "accumulate_Bs Emb A [] Temp = Inr Temp"
| "accumulate_Bs Emb A (B # Bs) Temp =
     (case add_to Temp A Emb B of
        Inl e \<Rightarrow> Inl e
      | Inr T1 \<Rightarrow>
          (case add_to T1 B Emb A of
             Inl e \<Rightarrow> Inl e
           | Inr T2 \<Rightarrow> accumulate_Bs Emb A Bs T2))"

fun accumulate :: "vec dict \<Rightarrow> edges \<Rightarrow> vec dict \<Rightarrow> error + vec dict" where
  "accumulate Emb [] Temp = Inr Temp"
| "accumulate Emb ((A, Bs) # Es) Temp =
     (case accumulate_Bs Emb A Bs Temp of
        Inl e \<Rightarrow> Inl e
      | Inr T \<Rightarrow> accumulate Emb Es T)"

text \<open>Line 32: every buffer divided by its norm plus epsilon (the model is for \<open>0 < eps\<close>).\<close>

definition Embedding_New :: "real \<Rightarrow> vec dict \<Rightarrow> vec dict" where
  "Embedding_New eps Temp =
     map (\<lambda>(k, v). (k, map (\<lambda>x. x / (linalg_norm v + eps)) v)) Temp"

text \<open>Lines 33-36: the list \<open>Loss\<close> of the per-node mean absolute differences.\<close>

fun node_losses :: "vec dict \<Rightarrow> vec dict \<Rightarrow> error + real option list" where
  "node_losses [] New = Inr []"
| "node_losses ((k, v) # Emb) New =
     (case map_of New k of
        None \<Rightarrow> Inl (KeyError k)
      | Some v_new \<Rightarrow>
          (case node_losses Emb New of
             Inl e \<Rightarrow> Inl e
           | Inr Ls \<Rightarrow> Inr (np_mean (map abs (subtract v v_new)) # Ls)))"

definition iteration :: "real \<Rightarrow> edges \<Rightarrow> state \<Rightarrow> error + state" where
  "iteration eps Edges s =
     (case accumulate (Node_ID_2_Embedding s) Edges (Node_ID_2_Embedding_Temp s) of
        Inl e \<Rightarrow> Inl e
      | Inr Temp \<Rightarrow>
          (let New = Embedding_New eps Temp in
           case node_losses (Node_ID_2_Embedding s) New of
             Inl e \<Rightarrow> Inl e
           | Inr Loss \<Rightarrow>
               Inr \<lparr>Node_ID_2_Embedding = New,
                    Node_ID_2_Embedding_Temp = Temp,
                    Losses = Losses s @ [np_mean_nan Loss]\<rparr>))"

fun iterations :: "nat \<Rightarrow> real \<Rightarrow> edges \<Rightarrow> state \<Rightarrow> error + state" where
  "iterations 0 eps Edges s = Inr s"
| "iterations (Suc n) eps Edges s =
     (case iteration eps Edges s of
        Inl e \<Rightarrow> Inl e
      | Inr s' \<Rightarrow> iterations n eps Edges s')"

text \<open>
  The loop from its initial state: the embeddings of the initialiser, the buffers of
  line 21 and no losses. The dimension, the iteration count and epsilon are the
  constants of Tools.py in the script and parameters here.
\<close>

definition Diffusion :: "nat \<Rightarrow> nat \<Rightarrow> real \<Rightarrow> int list \<Rightarrow> vec dict \<Rightarrow> edges \<Rightarrow> error + state" where
  "Diffusion d n eps Node_IDs Emb0 Edges =
     iterations n eps Edges
       \<lparr>Node_ID_2_Embedding = Emb0,
        Node_ID_2_Embedding_Temp = zero_buffers d Node_IDs,
        Losses = []\<rparr>"



section \<open>The accumulation pass on float32 buffers\<close>




definition add_to_with ::
  "(vec \<Rightarrow> vec \<Rightarrow> vec) \<Rightarrow> vec dict \<Rightarrow> int \<Rightarrow> vec dict \<Rightarrow> int \<Rightarrow> error + vec dict" where
  "add_to_with add Temp k Emb j =
     (case map_of Temp k of
        None \<Rightarrow> Inl (KeyError k)
      | Some t \<Rightarrow>
          (case map_of Emb j of
             None \<Rightarrow> Inl (KeyError j)
           | Some e \<Rightarrow> Inr (AList.update k (add t e) Temp)))"

fun accumulate_Bs_with ::
  "(vec \<Rightarrow> vec \<Rightarrow> vec) \<Rightarrow> vec dict \<Rightarrow> int \<Rightarrow> int list \<Rightarrow> vec dict \<Rightarrow> error + vec dict" where
  "accumulate_Bs_with add Emb A [] Temp = Inr Temp"
| "accumulate_Bs_with add Emb A (B # Bs) Temp =
     (case add_to_with add Temp A Emb B of
        Inl e \<Rightarrow> Inl e
      | Inr T1 \<Rightarrow>
          (case add_to_with add T1 B Emb A of
             Inl e \<Rightarrow> Inl e
           | Inr T2 \<Rightarrow> accumulate_Bs_with add Emb A Bs T2))"

fun accumulate_with ::
  "(vec \<Rightarrow> vec \<Rightarrow> vec) \<Rightarrow> vec dict \<Rightarrow> edges \<Rightarrow> vec dict \<Rightarrow> error + vec dict" where
  "accumulate_with add Emb [] Temp = Inr Temp"
| "accumulate_with add Emb ((A, Bs) # Es) Temp =
     (case accumulate_Bs_with add Emb A Bs Temp of
        Inl e \<Rightarrow> Inl e
      | Inr T \<Rightarrow> accumulate_with add Emb Es T)"

section \<open>Export, projection and sparsification (lines 42-101)\<close>

text \<open>
  Line 44: the dict comprehension over the items of the final embeddings (int() of an int
  key and tolist() change nothing in this model).
\<close>

definition embeddings_to_save :: "vec dict \<Rightarrow> vec dict" where
  "embeddings_to_save Emb =
     fold (\<lambda>(node_id, embedding) D. AList.update node_id embedding D) Emb []"

text \<open>\<open>Node_IDs.index(x)\<close> and the row \<open>Embeddings_2D[i, :]\<close> of the N x 2 array.\<close>

fun index_of :: "int list \<Rightarrow> int \<Rightarrow> error + nat" where
  "index_of [] x = Inl (ValueError x)"
| "index_of (y # ys) x =
     (if y = x then Inr 0
      else (case index_of ys x of Inl e \<Rightarrow> Inl e | Inr i \<Rightarrow> Inr (Suc i)))"

definition point_of :: "int list \<Rightarrow> (real \<times> real) list \<Rightarrow> int \<Rightarrow> error + real \<times> real" where
  "point_of Node_IDs Embeddings_2D Node_ID =
     (case index_of Node_IDs Node_ID of
        Inl e \<Rightarrow> Inl e
      | Inr i \<Rightarrow> (if i < length Embeddings_2D then Inr (Embeddings_2D ! i) else Inl (IndexError (int i))))"

definition segment_length :: "real \<times> real \<Rightarrow> real \<times> real \<Rightarrow> real" where
  "segment_length p q = linalg_norm [fst p - fst q, snd p - snd q]"

text \<open>Lines 72-81: the list of the projected lengths of all edges.\<close>

fun lengths_Bs :: "int list \<Rightarrow> (real \<times> real) list \<Rightarrow> real \<times> real \<Rightarrow> int list \<Rightarrow> error + real list" where
  "lengths_Bs Node_IDs pts pA [] = Inr []"
| "lengths_Bs Node_IDs pts pA (B # Bs) =
     (case point_of Node_IDs pts B of
        Inl e \<Rightarrow> Inl e
      | Inr pB \<Rightarrow>
          (case lengths_Bs Node_IDs pts pA Bs of
             Inl e \<Rightarrow> Inl e
           | Inr Ls \<Rightarrow> Inr (segment_length pA pB # Ls)))"

fun Edge_Lengths_2D :: "int list \<Rightarrow> (real \<times> real) list \<Rightarrow> edges \<Rightarrow> error + real list" where
  "Edge_Lengths_2D Node_IDs pts [] = Inr []"
| "Edge_Lengths_2D Node_IDs pts ((A, Bs) # Es) =
     (case point_of Node_IDs pts A of
        Inl e \<Rightarrow> Inl e
      | Inr pA \<Rightarrow>
          (case lengths_Bs Node_IDs pts pA Bs of
             Inl e \<Rightarrow> Inl e
           | Inr L1 \<Rightarrow>
               (case Edge_Lengths_2D Node_IDs pts Es of
                  Inl e \<Rightarrow> Inl e
                | Inr L2 \<Rightarrow> Inr (L1 @ L2))))"

text \<open>
  np.percentile(a, q) with numpy's default linear interpolation between the two order
  statistics around the position \<open>q / 100 * (n - 1)\<close>. On an empty array it raises
  IndexError (index -1 of an array of size 0).
\<close>

definition np_percentile :: "real list \<Rightarrow> real \<Rightarrow> error + real" where
  "np_percentile a q =
     (if a = [] then Inl (IndexError (- 1))
      else
        (let srt = sort a;
             h = q / 100 * real (length a - 1);
             lo = nat \<lfloor>h\<rfloor>;
             hi = min (lo + 1) (length a - 1)
         in Inr (srt ! lo + (h - real lo) * (srt ! hi - srt ! lo))))"

text \<open>Lines 85-96: the segments handed to plt.plot, each as its lists Xs and Ys.\<close>

type_synonym segment = "real list \<times> real list"

fun plot_Bs :: "int list \<Rightarrow> (real \<times> real) list \<Rightarrow> real \<Rightarrow> real \<times> real \<Rightarrow> int list \<Rightarrow> error + segment list" where
  "plot_Bs Node_IDs pts Length_2D_Threshold pA [] = Inr []"
| "plot_Bs Node_IDs pts Length_2D_Threshold pA (B # Bs) =
     (case point_of Node_IDs pts B of
        Inl e \<Rightarrow> Inl e
      | Inr pB \<Rightarrow>
          (case plot_Bs Node_IDs pts Length_2D_Threshold pA Bs of
             Inl e \<Rightarrow> Inl e
           | Inr segs \<Rightarrow>
               (if segment_length pA pB \<le> Length_2D_Threshold
                then Inr (([fst pA, fst pB], [snd pA, snd pB]) # segs)
                else Inr segs)))"

fun plot_edges :: "int list \<Rightarrow> (real \<times> real) list \<Rightarrow> real \<Rightarrow> edges \<Rightarrow> error + segment list" where
  "plot_edges Node_IDs pts Length_2D_Threshold [] = Inr []"
| "plot_edges Node_IDs pts Length_2D_Threshold ((A, Bs) # Es) =
     (case point_of Node_IDs pts A of
        Inl e \<Rightarrow> Inl e
      | Inr pA \<Rightarrow>
          (case plot_Bs Node_IDs pts Length_2D_Threshold pA Bs of
             Inl e \<Rightarrow> Inl e
           | Inr S1 \<Rightarrow>
               (case plot_edges Node_IDs pts Length_2D_Threshold Es of
                  Inl e \<Rightarrow> Inl e
                | Inr S2 \<Rightarrow> Inr (S1 @ S2))))"

definition Sparsify :: "int list \<Rightarrow> edges \<Rightarrow> (real \<times> real) list \<Rightarrow> error + segment list" where
  "Sparsify Node_IDs Edges pts =
     (case Edge_Lengths_2D Node_IDs pts Edges of
        Inl e \<Rightarrow> Inl e
      | Inr Ls \<Rightarrow>
          (case np_percentile Ls 90 of
             Inl e \<Rightarrow> Inl e
           | Inr Length_2D_Threshold \<Rightarrow> plot_edges Node_IDs pts Length_2D_Threshold Edges))"

text \<open>
  The script after initialisation. The projection (TSNE.fit_transform) is a parameter:
  it returns the N x 2 array or raises. The record holds what the run leaves behind:
  the content of Outputs/Node_Embeddings.json if the file was written, and the plotted
  segments or the exception that ended the run.
\<close>

record outcome =
  Node_Embeddings_json :: "vec dict option"
  plotted :: "error + segment list"

definition Embedding_script ::
  "nat \<Rightarrow> nat \<Rightarrow> real \<Rightarrow> int list \<Rightarrow> vec dict \<Rightarrow> edges \<Rightarrow>
   (vec list \<Rightarrow> error + (real \<times> real) list) \<Rightarrow> outcome" where
  "Embedding_script d n eps Node_IDs Emb0 Edges fit_transform =
     (case Diffusion d n eps Node_IDs Emb0 Edges of
        Inl e \<Rightarrow> \<lparr>Node_Embeddings_json = None, plotted = Inl e\<rparr>
      | Inr s \<Rightarrow>
          (let saved = embeddings_to_save (Node_ID_2_Embedding s) in
           case fit_transform (map snd (Node_ID_2_Embedding s)) of
             Inl e \<Rightarrow> \<lparr>Node_Embeddings_json = Some saved, plotted = Inl e\<rparr>
           | Inr Embeddings_2D \<Rightarrow>
               \<lparr>Node_Embeddings_json = Some saved,
                plotted = Sparsify Node_IDs Edges Embeddings_2D\<rparr>))"

section \<open>Auxiliary notions for the proofs\<close>

text \<open>The edges in the order the two nested loops visit them.\<close>

definition edge_pairs :: "edges \<Rightarrow> (int \<times> int) list" where
  "edge_pairs Edges = concat (map (\<lambda>(A, Bs). map (Pair A) Bs) Edges)"

text \<open>The accumulation pass as one loop over the visited pairs.\<close>

fun accumulate_pairs :: "vec dict \<Rightarrow> (int \<times> int) list \<Rightarrow> vec dict \<Rightarrow> error + vec dict" where
  "accumulate_pairs Emb [] Temp = Inr Temp"
| "accumulate_pairs Emb ((A, B) # ps) Temp =
     (case add_to Temp A Emb B of
        Inl e \<Rightarrow> Inl e
      | Inr T1 \<Rightarrow>
          (case add_to T1 B Emb A of
             Inl e \<Rightarrow> Inl e
           | Inr T2 \<Rightarrow> accumulate_pairs Emb ps T2))"

text \<open>Both endpoints of a pair are keys of both dicts.\<close>

definition known :: "vec dict \<Rightarrow> vec dict \<Rightarrow> int \<times> int \<Rightarrow> bool" where
  "known Emb Temp p =
     (fst p \<in> fst ` set Temp \<and> snd p \<in> fst ` set Temp \<and>
      fst p \<in> fst ` set Emb \<and> snd p \<in> fst ` set Emb)"

text \<open>The vectors one pass adds to the buffer of node \<open>k\<close>, in the order it adds them.\<close>

definition contributions :: "vec dict \<Rightarrow> int \<Rightarrow> (int \<times> int) list \<Rightarrow> vec list" where
  "contributions Emb k ps =
     concat (map (\<lambda>(A, B). (if A = k then [the (map_of Emb B)] else []) @
                            (if B = k then [the (map_of Emb A)] else [])) ps)"

definition add_all :: "vec list \<Rightarrow> vec \<Rightarrow> vec" where
  "add_all cs v = fold (\<lambda>c u. vadd u c) cs v"

text \<open>The same two notions for the pass with a given addition.\<close>

fun accumulate_pairs_with ::
  "(vec \<Rightarrow> vec \<Rightarrow> vec) \<Rightarrow> vec dict \<Rightarrow> (int \<times> int) list \<Rightarrow> vec dict \<Rightarrow> error + vec dict" where
  "accumulate_pairs_with add Emb [] Temp = Inr Temp"
| "accumulate_pairs_with add Emb ((A, B) # ps) Temp =
     (case add_to_with add Temp A Emb B of
        Inl e \<Rightarrow> Inl e
      | Inr T1 \<Rightarrow>
          (case add_to_with add T1 B Emb A of
             Inl e \<Rightarrow> Inl e
           | Inr T2 \<Rightarrow> accumulate_pairs_with add Emb ps T2))"

definition add_all_with :: "(vec \<Rightarrow> vec \<Rightarrow> vec) \<Rightarrow> vec list \<Rightarrow> vec \<Rightarrow> vec" where
  "add_all_with add cs v = fold (\<lambda>c u. add u c) cs v"

text \<open>A dict with exactly the given nodes as its distinct keys and vectors of dimension \<open>d\<close>.\<close>

definition shaped :: "nat \<Rightarrow> int list \<Rightarrow> vec dict \<Rightarrow> bool" where
  "shaped d Node_IDs D =
     (distinct (map fst D) \<and> fst ` set D = set Node_IDs \<and> (\<forall>kv \<in> set D. length (snd kv) = d))"


definition isolated :: "edges \<Rightarrow> int \<Rightarrow> bool" where
  "isolated Edges k = (\<forall>p \<in> set (edge_pairs Edges). fst p \<noteq> k \<and> snd p \<noteq> k)"

text \<open>The invariant of the loop: both dicts hold the node set with vectors of dimension \<open>d\<close>.\<close>

definition consistent :: "nat \<Rightarrow> int list \<Rightarrow> state \<Rightarrow> bool" where
  "consistent d ids s =
     (shaped d ids (Node_ID_2_Embedding s) \<and> shaped d ids (Node_ID_2_Embedding_Temp s))"

text \<open>Every endpoint of every edge is a node.\<close>

definition valid_edges :: "int list \<Rightarrow> edges \<Rightarrow> bool" where
  "valid_edges ids Edges = (\<forall>p \<in> set (edge_pairs Edges). fst p \<in> set ids \<and> snd p \<in> set ids)"



text \<open>
  The projected length and the plotted segment of an edge whose endpoints both have a
  projected point, and the condition that every endpoint has one.
\<close>

definition edge_length :: "int list \<Rightarrow> (real \<times> real) list \<Rightarrow> int \<times> int \<Rightarrow> real" where
  "edge_length Node_IDs pts p =
     segment_length (projr (point_of Node_IDs pts (fst p))) (projr (point_of Node_IDs pts (snd p)))"

definition edge_segment :: "int list \<Rightarrow> (real \<times> real) list \<Rightarrow> int \<times> int \<Rightarrow> segment" where
  "edge_segment Node_IDs pts p =
     (let pA = projr (point_of Node_IDs pts (fst p)); pB = projr (point_of Node_IDs pts (snd p))
      in ([fst pA, fst pB], [snd pA, snd pB]))"

definition plottable :: "int list \<Rightarrow> (real \<times> real) list \<Rightarrow> edges \<Rightarrow> bool" where
  "plottable Node_IDs pts Edges =
     (length Node_IDs \<le> length pts \<and>
      (\<forall>ab \<in> set Edges. fst ab \<in> set Node_IDs \<and> set (snd ab) \<subseteq> set Node_IDs))"

section \<open>Properties of the accumulation pass\<close>

text \<open>
  The pass with \<open>vadd\<close> as its addition is the pass of the loop. What follows is
  proved for the pass with any addition and then holds for both.
\<close>

lemma add_to_with_vadd: "add_to_with vadd = add_to"
  by (intro ext) (simp add: add_to_with_def add_to_def)

lemma accumulate_Bs_with_vadd: "accumulate_Bs_with vadd Emb A Bs Temp = accumulate_Bs Emb A Bs Temp"
  by (induction Bs arbitrary: Temp) (auto simp: add_to_with_vadd split: sum.splits)

lemma accumulate_with_vadd: "accumulate_with vadd Emb Edges Temp = accumulate Emb Edges Temp"
  by (induction Edges arbitrary: Temp) (auto simp: accumulate_Bs_with_vadd split: sum.splits)

lemma accumulate_pairs_with_vadd: "accumulate_pairs_with vadd Emb ps Temp = accumulate_pairs Emb ps Temp"
  by (induction ps arbitrary: Temp) (auto simp: add_to_with_vadd split: sum.splits)

lemma add_all_with_vadd: "add_all_with vadd = add_all"
  by (intro ext) (simp add: add_all_with_def add_all_def)

lemmas with_vadd = add_to_with_vadd accumulate_Bs_with_vadd accumulate_with_vadd
  accumulate_pairs_with_vadd add_all_with_vadd

lemma accumulate_pairs_with_append:
  "accumulate_pairs_with add Emb (ps @ qs) Temp =
     (case accumulate_pairs_with add Emb ps Temp of Inl e \<Rightarrow> Inl e | Inr T \<Rightarrow> accumulate_pairs_with add Emb qs T)"
  by (induction ps arbitrary: Temp) (auto split: sum.splits)

lemmas accumulate_pairs_append = accumulate_pairs_with_append[of vadd, unfolded with_vadd]

lemma accumulate_Bs_with_pairs:
  "accumulate_Bs_with add Emb A Bs Temp = accumulate_pairs_with add Emb (map (Pair A) Bs) Temp"
  by (induction Bs arbitrary: Temp) (auto split: sum.splits)

lemmas accumulate_Bs_pairs = accumulate_Bs_with_pairs[of vadd, unfolded with_vadd]

lemma accumulate_pairs_with_eq:
  "accumulate_with add Emb Edges Temp = accumulate_pairs_with add Emb (edge_pairs Edges) Temp"
  by (induction Edges arbitrary: Temp)
     (auto simp: edge_pairs_def accumulate_pairs_with_append accumulate_Bs_with_pairs split: sum.splits)

lemmas accumulate_pairs_eq = accumulate_pairs_with_eq[of vadd, unfolded with_vadd]

lemma key_iff: "k \<in> fst ` set al \<longleftrightarrow> (\<exists>v. map_of al k = Some v)"
  by (metis map_of_eq_None_iff not_None_eq)

lemma add_to_with_Inr:
  "add_to_with add Temp k Emb j = Inr T \<longleftrightarrow>
     (\<exists>t e. map_of Temp k = Some t \<and> map_of Emb j = Some e \<and> T = AList.update k (add t e) Temp)"
  by (auto simp: add_to_with_def split: option.splits)

lemmas add_to_Inr = add_to_with_Inr[of vadd, unfolded with_vadd]

lemma add_to_with_keys: "add_to_with add Temp k Emb j = Inr T \<Longrightarrow> map fst T = map fst Temp"
proof -
  assume "add_to_with add Temp k Emb j = Inr T"
  then obtain t e where t: "map_of Temp k = Some t" and T: "T = AList.update k (add t e) Temp"
    by (auto simp: add_to_with_Inr)
  from t have "k \<in> set (map fst Temp)" using key_iff[of k Temp] by simp
  then show ?thesis by (simp add: T update_keys)
qed

lemmas add_to_keys = add_to_with_keys[of vadd, unfolded with_vadd]

lemma add_to_with_ok:
  "(\<exists>T. add_to_with add Temp k Emb j = Inr T) \<longleftrightarrow> k \<in> fst ` set Temp \<and> j \<in> fst ` set Emb"
  by (auto simp: add_to_with_Inr key_iff)

lemmas add_to_ok = add_to_with_ok[of vadd, unfolded with_vadd]

lemma accumulate_pairs_with_keys:
  "accumulate_pairs_with add Emb ps Temp = Inr T \<Longrightarrow> map fst T = map fst Temp"
proof (induction ps arbitrary: Temp)
  case Nil then show ?case by simp
next
  case (Cons p ps)
  obtain A B where p: "p = (A, B)" by (cases p)
  from Cons.prems obtain T1 T2 where
    1: "add_to_with add Temp A Emb B = Inr T1" and 2: "add_to_with add T1 B Emb A = Inr T2"
    and 3: "accumulate_pairs_with add Emb ps T2 = Inr T"
    unfolding p by (auto split: sum.splits)
  from Cons.IH[OF 3] add_to_with_keys[OF 1] add_to_with_keys[OF 2] show ?case by simp
qed

lemmas accumulate_pairs_keys = accumulate_pairs_with_keys[of vadd, unfolded with_vadd]

lemma known_keys: "map fst T = map fst Temp \<Longrightarrow> known Emb T p = known Emb Temp p"
  unfolding known_def by (metis set_map)

lemma pair_with_ok:
  "(\<exists>T1 T2. add_to_with add Temp A Emb B = Inr T1 \<and> add_to_with add T1 B Emb A = Inr T2) \<longleftrightarrow> known Emb Temp (A, B)"
proof
  assume "\<exists>T1 T2. add_to_with add Temp A Emb B = Inr T1 \<and> add_to_with add T1 B Emb A = Inr T2"
  then obtain T1 T2 where 1: "add_to_with add Temp A Emb B = Inr T1" and 2: "add_to_with add T1 B Emb A = Inr T2"
    by blast
  from 1 have a: "A \<in> fst ` set Temp" "B \<in> fst ` set Emb" using add_to_with_ok by blast+
  from 2 have b: "B \<in> fst ` set T1" "A \<in> fst ` set Emb" using add_to_with_ok by blast+
  from add_to_with_keys[OF 1] have "fst ` set T1 = fst ` set Temp" by (metis set_map)
  with a b show "known Emb Temp (A, B)" by (simp add: known_def)
next
  assume k: "known Emb Temp (A, B)"
  then obtain T1 where 1: "add_to_with add Temp A Emb B = Inr T1"
    using add_to_with_ok[of add Temp A Emb B] by (auto simp: known_def)
  from add_to_with_keys[OF 1] have "fst ` set T1 = fst ` set Temp" by (metis set_map)
  with k obtain T2 where "add_to_with add T1 B Emb A = Inr T2"
    using add_to_with_ok[of add T1 B Emb A] by (auto simp: known_def)
  with 1 show "\<exists>T1 T2. add_to_with add Temp A Emb B = Inr T1 \<and> add_to_with add T1 B Emb A = Inr T2" by blast
qed

lemmas pair_ok = pair_with_ok[of vadd, unfolded with_vadd]

lemma accumulate_pairs_with_ok:
  "(\<exists>T. accumulate_pairs_with add Emb ps Temp = Inr T) \<longleftrightarrow> (\<forall>p \<in> set ps. known Emb Temp p)"
proof (induction ps arbitrary: Temp)
  case Nil then show ?case by simp
next
  case (Cons p ps)
  obtain A B where p: "p = (A, B)" by (cases p)
  show ?case
  proof (cases "known Emb Temp (A, B)")
    case False
    with pair_with_ok[of add Temp A Emb B] have "\<not> (\<exists>T. accumulate_pairs_with add Emb (p # ps) Temp = Inr T)"
      unfolding p by (auto split: sum.splits)
    with False show ?thesis by (auto simp: p)
  next
    case True
    with pair_with_ok[of add Temp A Emb B] obtain T1 T2 where
      1: "add_to_with add Temp A Emb B = Inr T1" and 2: "add_to_with add T1 B Emb A = Inr T2" by blast
    have keys: "map fst T2 = map fst Temp" using add_to_with_keys[OF 1] add_to_with_keys[OF 2] by simp
    have "(\<exists>T. accumulate_pairs_with add Emb (p # ps) Temp = Inr T) \<longleftrightarrow> (\<exists>T. accumulate_pairs_with add Emb ps T2 = Inr T)"
      unfolding p by (simp add: 1 2)
    also have "\<dots> \<longleftrightarrow> (\<forall>q \<in> set ps. known Emb T2 q)" by (rule Cons.IH)
    also have "\<dots> \<longleftrightarrow> (\<forall>q \<in> set ps. known Emb Temp q)" by (simp add: known_keys[OF keys])
    finally show ?thesis using True by (simp add: p)
  qed
qed

lemmas accumulate_pairs_ok = accumulate_pairs_with_ok[of vadd, unfolded with_vadd]

lemma add_to_Inl:
  "add_to Temp k Emb j = Inl e \<Longrightarrow>
     (e = KeyError k \<and> k \<notin> fst ` set Temp) \<or> (e = KeyError j \<and> j \<notin> fst ` set Emb)"
  by (auto simp: add_to_def map_of_eq_None_iff split: option.splits)

lemma accumulate_pairs_Inl:
  "accumulate_pairs Emb ps Temp = Inl e \<Longrightarrow>
     \<exists>k. e = KeyError k \<and> (k \<notin> fst ` set Temp \<or> k \<notin> fst ` set Emb)"
proof (induction ps arbitrary: Temp)
  case Nil then show ?case by simp
next
  case (Cons p ps)
  obtain A B where p: "p = (A, B)" by (cases p)
  show ?case
  proof (cases "add_to Temp A Emb B")
    case (Inl e1)
    with Cons.prems have "e1 = e" by (simp add: p)
    with add_to_Inl[OF Inl] show ?thesis by blast
  next
    case (Inr T1)
    have k1: "fst ` set T1 = fst ` set Temp" using add_to_keys[OF Inr] by (metis set_map)
    show ?thesis
    proof (cases "add_to T1 B Emb A")
      case (Inl e2)
      with Cons.prems Inr have "e2 = e" by (simp add: p)
      with add_to_Inl[OF Inl] k1 show ?thesis by blast
    next
      case T2: (Inr T2)
      have k2: "fst ` set T2 = fst ` set Temp" using add_to_keys[OF T2] k1 by (metis set_map)
      from Cons.prems Inr T2 have "accumulate_pairs Emb ps T2 = Inl e" by (simp add: p)
      from Cons.IH[OF this] k2 show ?thesis by simp
    qed
  qed
qed

lemma fold_update_keys:
  "fst ` set (fold (\<lambda>k D. AList.update k (z k) D) ks D0) = set ks \<union> fst ` set D0"
  by (induction ks arbitrary: D0) (auto simp: dom_update)

lemma fold_update_distinct:
  "distinct (map fst D0) \<Longrightarrow> distinct (map fst (fold (\<lambda>k D. AList.update k (z k) D) ks D0))"
  by (induction ks arbitrary: D0) (auto simp: distinct_update)

lemma fold_update_values:
  "snd ` set (fold (\<lambda>k D. AList.update k z D) ks D0) \<subseteq> {z} \<union> snd ` set D0"
proof (induction ks arbitrary: D0)
  case Nil then show ?case by auto
next
  case (Cons k ks)
  have "snd ` set (AList.update k z D0) \<subseteq> {z} \<union> snd ` set D0"
    by (induction D0) auto
  with Cons[of "AList.update k z D0"] show ?case by auto
qed

lemma zero_buffers_keys: "fst ` set (zero_buffers d ids) = set ids"
  unfolding zero_buffers_def using fold_update_keys[of "\<lambda>_. zeros d" ids "[]"] by simp

lemma zero_buffers_distinct: "distinct (map fst (zero_buffers d ids))"
  unfolding zero_buffers_def using fold_update_distinct[of "[]" "\<lambda>_. zeros d" ids] by simp

lemma zero_buffers_values: "(k, v) \<in> set (zero_buffers d ids) \<Longrightarrow> v = zeros d"
  unfolding zero_buffers_def using fold_update_values[of "zeros d" ids "[]"] by force

lemma zero_buffers_lookup: "k \<in> set ids \<Longrightarrow> map_of (zero_buffers d ids) k = Some (zeros d)"
proof -
  assume "k \<in> set ids"
  then obtain v where v: "map_of (zero_buffers d ids) k = Some v"
    using key_iff[of k "zero_buffers d ids"] zero_buffers_keys by auto
  from map_of_SomeD[OF v] zero_buffers_values show ?thesis using v by blast
qed

lemma zero_buffers_shaped: "shaped d ids (zero_buffers d ids)"
proof -
  have "length (snd kv) = d" if "kv \<in> set (zero_buffers d ids)" for kv
  proof -
    from that have "(fst kv, snd kv) \<in> set (zero_buffers d ids)" by simp
    then have "snd kv = zeros d" by (rule zero_buffers_values)
    then show ?thesis by (simp add: zeros_def)
  qed
  then show ?thesis
    unfolding shaped_def using zero_buffers_keys zero_buffers_distinct by blast
qed

section \<open>The loop and its invariant\<close>

lemma iteration_Inr:
  "iteration eps Edges s = Inr s' \<longleftrightarrow>
     (\<exists>T Loss. accumulate_pairs (Node_ID_2_Embedding s) (edge_pairs Edges) (Node_ID_2_Embedding_Temp s) = Inr T \<and>
        node_losses (Node_ID_2_Embedding s) (Embedding_New eps T) = Inr Loss \<and>
        s' = \<lparr>Node_ID_2_Embedding = Embedding_New eps T, Node_ID_2_Embedding_Temp = T,
              Losses = Losses s @ [np_mean_nan Loss]\<rparr>)"
  by (auto simp: iteration_def accumulate_pairs_eq Let_def split: sum.splits)

lemma iteration_Inl_accumulate:
  "accumulate_pairs (Node_ID_2_Embedding s) (edge_pairs Edges) (Node_ID_2_Embedding_Temp s) = Inl e
     \<Longrightarrow> iteration eps Edges s = Inl e"
  by (simp add: iteration_def accumulate_pairs_eq)

lemma iterations_first_fail:
  "iteration eps Edges s = Inl e \<Longrightarrow> 0 < n \<Longrightarrow> iterations n eps Edges s = Inl e"
  by (cases n) auto


lemma update_values: "snd ` set (AList.update k x al) \<subseteq> {x} \<union> snd ` set al"
  by (induction al) auto

lemma shaped_keys:
  assumes "shaped d ids D" "map fst D' = map fst D" "\<forall>kv \<in> set D'. length (snd kv) = d"
  shows "shaped d ids D'"
proof -
  have "set (map fst D') = set (map fst D)" using assms(2) by simp
  then have "fst ` set D' = fst ` set D" by simp
  with assms show ?thesis by (simp add: shaped_def)
qed

lemma vadd_length: "length (vadd u v) = min (length u) (length v)"
  by (simp add: vadd_def)

lemma add_to_lengths:
  assumes "add_to Temp k Emb j = Inr T" "\<forall>kv \<in> set Temp. length (snd kv) = d"
    "\<forall>kv \<in> set Emb. length (snd kv) = d"
  shows "\<forall>kv \<in> set T. length (snd kv) = d"
proof -
  from assms(1) obtain t e where t: "map_of Temp k = Some t" and e: "map_of Emb j = Some e"
    and T: "T = AList.update k (vadd t e) Temp" by (auto simp: add_to_Inr)
  have "length t = d" using map_of_SomeD[OF t] assms(2) by auto
  moreover have "length e = d" using map_of_SomeD[OF e] assms(3) by auto
  ultimately have len: "length (vadd t e) = d" by (simp add: vadd_length)
  show ?thesis unfolding T
  proof (rule ballI)
    fix kv assume "kv \<in> set (AList.update k (vadd t e) Temp)"
    then have "snd kv \<in> snd ` set (AList.update k (vadd t e) Temp)" by simp
    with update_values[of k "vadd t e" Temp] have "snd kv = vadd t e \<or> snd kv \<in> snd ` set Temp"
      by auto
    then show "length (snd kv) = d"
    proof
      assume "snd kv = vadd t e" with len show ?thesis by simp
    next
      assume "snd kv \<in> snd ` set Temp" with assms(2) show ?thesis by auto
    qed
  qed
qed

lemma accumulate_pairs_lengths:
  "accumulate_pairs Emb ps Temp = Inr T \<Longrightarrow> \<forall>kv \<in> set Temp. length (snd kv) = d \<Longrightarrow>
    \<forall>kv \<in> set Emb. length (snd kv) = d \<Longrightarrow> \<forall>kv \<in> set T. length (snd kv) = d"
proof (induction ps arbitrary: Temp)
  case Nil then show ?case by simp
next
  case (Cons p ps)
  obtain A B where p: "p = (A, B)" by (cases p)
  from Cons.prems(1) obtain T1 T2 where
    1: "add_to Temp A Emb B = Inr T1" and 2: "add_to T1 B Emb A = Inr T2"
    and 3: "accumulate_pairs Emb ps T2 = Inr T"
    unfolding p by (auto split: sum.splits)
  have "\<forall>kv \<in> set T1. length (snd kv) = d" by (rule add_to_lengths[OF 1 Cons.prems(2,3)])
  then have "\<forall>kv \<in> set T2. length (snd kv) = d" by (rule add_to_lengths[OF 2 _ Cons.prems(3)])
  from Cons.IH[OF 3 this Cons.prems(3)] show ?case .
qed

lemma accumulate_pairs_shaped:
  assumes "accumulate_pairs Emb ps Temp = Inr T" "shaped d ids Temp" "shaped d ids Emb"
  shows "shaped d ids T"
proof -
  have "\<forall>kv \<in> set T. length (snd kv) = d"
    using accumulate_pairs_lengths[OF assms(1)] assms(2,3) by (simp add: shaped_def)
  with shaped_keys[OF assms(2) accumulate_pairs_keys[OF assms(1)]] show ?thesis by simp
qed

lemma Embedding_New_keys: "map fst (Embedding_New eps T) = map fst T"
  by (induction T) (auto simp: Embedding_New_def)

lemma Embedding_New_lookup:
  "map_of (Embedding_New eps T) k =
     map_option (\<lambda>v. map (\<lambda>x. x / (linalg_norm v + eps)) v) (map_of T k)"
  by (induction T) (auto simp: Embedding_New_def)

lemma Embedding_New_shaped: "shaped d ids T \<Longrightarrow> shaped d ids (Embedding_New eps T)"
proof (rule shaped_keys[OF _ Embedding_New_keys])
  assume s: "shaped d ids T"
  then show "shaped d ids T" .
  show "\<forall>kv \<in> set (Embedding_New eps T). length (snd kv) = d"
  proof (rule ballI)
    fix kv assume "kv \<in> set (Embedding_New eps T)"
    then obtain k w where "(k, w) \<in> set T" and "snd kv = map (\<lambda>x. x / (linalg_norm w + eps)) w"
      by (auto simp: Embedding_New_def)
    moreover from this s have "length w = d" by (auto simp: shaped_def)
    ultimately show "length (snd kv) = d" by simp
  qed
qed

lemma iteration_consistent: "iteration eps Edges s = Inr s' \<Longrightarrow> consistent d ids s \<Longrightarrow> consistent d ids s'"
proof -
  assume 1: "iteration eps Edges s = Inr s'" and 2: "consistent d ids s"
  from 1 obtain T where T: "accumulate_pairs (Node_ID_2_Embedding s) (edge_pairs Edges) (Node_ID_2_Embedding_Temp s) = Inr T"
    and E': "Node_ID_2_Embedding s' = Embedding_New eps T" and T': "Node_ID_2_Embedding_Temp s' = T"
    by (auto simp: iteration_Inr)
  from 2 have "shaped d ids T" using accumulate_pairs_shaped[OF T] by (simp add: consistent_def)
  then show ?thesis by (simp add: consistent_def E' T' Embedding_New_shaped)
qed

lemma iterations_consistent: "iterations n eps Edges s = Inr s' \<Longrightarrow> consistent d ids s \<Longrightarrow> consistent d ids s'"
proof (induction n arbitrary: s)
  case 0 then show ?case by simp
next
  case (Suc n)
  from Suc.prems(1) obtain s1 where 1: "iteration eps Edges s = Inr s1"
    and 2: "iterations n eps Edges s1 = Inr s'" by (auto split: sum.splits)
  from Suc.IH[OF 2 iteration_consistent[OF 1 Suc.prems(2)]] show ?case .
qed

lemma node_losses_ok:
  "fst ` set Emb \<subseteq> fst ` set New \<Longrightarrow> \<exists>Loss. node_losses Emb New = Inr Loss"
proof (induction Emb)
  case Nil then show ?case by simp
next
  case (Cons kv Emb)
  obtain k v where kv: "kv = (k, v)" by (cases kv)
  from Cons.prems obtain w where "map_of New k = Some w" using key_iff[of k New] by (auto simp: kv)
  moreover from Cons obtain Loss where "node_losses Emb New = Inr Loss" by auto
  ultimately show ?case by (simp add: kv)
qed

lemma iteration_ok:
  assumes "consistent d ids s" "valid_edges ids Edges"
  shows "\<exists>s'. iteration eps Edges s = Inr s'"
proof -
  let ?E = "Node_ID_2_Embedding s" and ?T = "Node_ID_2_Embedding_Temp s"
  from assms have "\<forall>p \<in> set (edge_pairs Edges). known ?E ?T p"
    by (auto simp: consistent_def shaped_def known_def valid_edges_def)
  then obtain T where T: "accumulate_pairs ?E (edge_pairs Edges) ?T = Inr T"
    using accumulate_pairs_ok by blast
  have "fst ` set (Embedding_New eps T) = fst ` set ?T"
    using Embedding_New_keys[of eps T] accumulate_pairs_keys[OF T] by (metis set_map)
  with assms(1) have "fst ` set ?E \<subseteq> fst ` set (Embedding_New eps T)"
    by (simp add: consistent_def shaped_def)
  from node_losses_ok[OF this] T show ?thesis by (auto simp: iteration_Inr)
qed

lemma iterations_ok:
  "consistent d ids s \<Longrightarrow> valid_edges ids Edges \<Longrightarrow> \<exists>s'. iterations n eps Edges s = Inr s'"
proof (induction n arbitrary: s)
  case 0 then show ?case by simp
next
  case (Suc n)
  from iteration_ok[OF Suc.prems] obtain s1 where 1: "iteration eps Edges s = Inr s1" by blast
  from Suc.IH[OF iteration_consistent[OF 1 Suc.prems(1)] Suc.prems(2)] 1 show ?case by simp
qed

section \<open>The loss trajectory and failing runs\<close>





lemma shaped_nonempty: "shaped d ids D \<Longrightarrow> ids \<noteq> [] \<Longrightarrow> D \<noteq> []"
  by (auto simp: shaped_def)



lemma initial_consistent:
  "shaped d ids Emb0 \<Longrightarrow>
   consistent d ids \<lparr>Node_ID_2_Embedding = Emb0, Node_ID_2_Embedding_Temp = zero_buffers d ids, Losses = []\<rparr>"
  by (simp add: consistent_def zero_buffers_shaped)




text \<open>
  Claim C8: when an edge has an endpoint outside the node set, the first accumulation pass
  raises KeyError for a key outside the node set, the run ends with that error and the
  file Node_Embeddings.json is never written.
\<close>

theorem unknown_node_fails_fast:
  assumes "p \<in> set (edge_pairs Edges)" "fst p \<notin> set Node_IDs \<or> snd p \<notin> set Node_IDs"
    "fst ` set Emb0 = set Node_IDs" "0 < n"
  shows "\<exists>k. k \<notin> set Node_IDs \<and>
     accumulate Emb0 Edges (zero_buffers d Node_IDs) = Inl (KeyError k) \<and>
     Diffusion d n eps Node_IDs Emb0 Edges = Inl (KeyError k) \<and>
     Node_Embeddings_json (Embedding_script d n eps Node_IDs Emb0 Edges fit_transform) = None"
proof -
  let ?T = "zero_buffers d Node_IDs"
  let ?s0 = "\<lparr>Node_ID_2_Embedding = Emb0, Node_ID_2_Embedding_Temp = ?T, Losses = []\<rparr>"
  have "\<not> known Emb0 ?T p" using assms(2) by (auto simp: known_def zero_buffers_keys)
  with assms(1) have "\<not> (\<exists>T. accumulate_pairs Emb0 (edge_pairs Edges) ?T = Inr T)"
    using accumulate_pairs_ok[of Emb0 "edge_pairs Edges" ?T] by blast
  then obtain e where e: "accumulate_pairs Emb0 (edge_pairs Edges) ?T = Inl e"
    by (cases "accumulate_pairs Emb0 (edge_pairs Edges) ?T") auto
  from accumulate_pairs_Inl[OF e] obtain k where k: "e = KeyError k" "k \<notin> set Node_IDs"
    using assms(3) by (auto simp: zero_buffers_keys)
  have "iteration eps Edges ?s0 = Inl e" using e by (simp add: iteration_Inl_accumulate)
  then have D: "Diffusion d n eps Node_IDs Emb0 Edges = Inl e"
    using iterations_first_fail[OF _ assms(4)] by (simp add: Diffusion_def)
  then have "Node_Embeddings_json (Embedding_script d n eps Node_IDs Emb0 Edges fit_transform) = None"
    by (simp add: Embedding_script_def)
  with D e k show ?thesis by (auto simp: accumulate_pairs_eq)
qed

theorem unknown_node_fails_fast_witness:
  "(1, 2) \<in> set (edge_pairs [(1, [2])]) \<and> snd (1::int, 2::int) \<notin> set [1::int] \<and>
   fst ` set [(1::int, zeros EMBEDDING_SIZE)] = set [1] \<and> 0 < ITERATION_COUNT \<and>
   (\<exists>k. k \<notin> set [1] \<and>
     accumulate [(1, zeros EMBEDDING_SIZE)] [(1, [2])] (zero_buffers EMBEDDING_SIZE [1]) = Inl (KeyError k) \<and>
     Diffusion EMBEDDING_SIZE ITERATION_COUNT EPSILON [1] [(1, zeros EMBEDDING_SIZE)] [(1, [2])] = Inl (KeyError k) \<and>
     Node_Embeddings_json (Embedding_script EMBEDDING_SIZE ITERATION_COUNT EPSILON [1] [(1, zeros EMBEDDING_SIZE)] [(1, [2])] (\<lambda>x. Inl ProjectionError)) = None)"
  using unknown_node_fails_fast[of "(1, 2)" "[(1, [2])]" "[1]" "[(1, zeros EMBEDDING_SIZE)]" ITERATION_COUNT
      EMBEDDING_SIZE EPSILON "\<lambda>x. Inl ProjectionError"]
  by (simp add: edge_pairs_def ITERATION_COUNT_def)

section \<open>What a pass adds to a buffer\<close>

lemma add_to_with_lookup:
  "add_to_with add Temp k Emb j = Inr T \<Longrightarrow>
     map_of T k' = (if k' = k then Some (add (the (map_of Temp k)) (the (map_of Emb j)))
                    else map_of Temp k')"
  by (auto simp: add_to_with_Inr update_conv')

lemmas add_to_lookup = add_to_with_lookup[of vadd, unfolded with_vadd]

lemma add_all_with_simps:
  "add_all_with add [] v = v" "add_all_with add (c # cs) v = add_all_with add cs (add v c)"
  "add_all_with add (xs @ ys) v = add_all_with add ys (add_all_with add xs v)"
  by (simp_all add: add_all_with_def)

lemmas add_all_simps = add_all_with_simps[of vadd, unfolded with_vadd]

lemma accumulate_pairs_with_lookup:
  "accumulate_pairs_with add Emb ps Temp = Inr T \<Longrightarrow>
     map_of T k = map_option (add_all_with add (contributions Emb k ps)) (map_of Temp k)"
proof (induction ps arbitrary: Temp)
  case Nil
  then show ?case by (cases "map_of Temp k") (simp_all add: contributions_def add_all_with_simps)
next
  case (Cons p ps)
  obtain A B where p: "p = (A, B)" by (cases p)
  from Cons.prems obtain T1 T2 where
    1: "add_to_with add Temp A Emb B = Inr T1" and 2: "add_to_with add T1 B Emb A = Inr T2"
    and 3: "accumulate_pairs_with add Emb ps T2 = Inr T"
    unfolding p by (auto split: sum.splits)
  from 1 obtain tA where tA: "map_of Temp A = Some tA" by (auto simp: add_to_with_Inr)
  from 2 obtain tB where tB: "map_of T1 B = Some tB" by (auto simp: add_to_with_Inr)
  have c: "contributions Emb k (p # ps) =
      (if A = k then [the (map_of Emb B)] else []) @
      (if B = k then [the (map_of Emb A)] else []) @ contributions Emb k ps"
    by (simp add: contributions_def p)
  have l1: "map_of T1 k = (if k = A then Some (add tA (the (map_of Emb B))) else map_of Temp k)"
    using add_to_with_lookup[OF 1, of k] tA by simp
  have l2: "map_of T2 k = (if k = B then Some (add tB (the (map_of Emb A))) else map_of T1 k)"
    using add_to_with_lookup[OF 2, of k] tB by simp
  have "map_of T2 k = map_option (add_all_with add ((if A = k then [the (map_of Emb B)] else []) @
      (if B = k then [the (map_of Emb A)] else []))) (map_of Temp k)"
  proof (cases "k = B")
    case True
    note kB = this
    show ?thesis
    proof (cases "k = A")
      case True
      with kB l1 l2 tA tB show ?thesis by (simp add: add_all_with_simps)
    next
      case False
      with kB l1 tB have "map_of Temp B = Some tB" by simp
      with kB l2 False show ?thesis by (simp add: add_all_with_simps)
    qed
  next
    case False
    with l1 l2 tA show ?thesis by (cases "map_of Temp k") (auto simp: add_all_with_simps)
  qed
  with Cons.IH[OF 3, of ] show ?case
    unfolding c by (cases "map_of Temp k") (simp_all add: add_all_with_simps)
qed

lemmas accumulate_pairs_lookup = accumulate_pairs_with_lookup[of vadd, unfolded with_vadd]

lemma isolated_contributions: "isolated Edges k \<Longrightarrow> contributions Emb k (edge_pairs Edges) = []"
  unfolding isolated_def contributions_def by (induction "edge_pairs Edges") auto

section \<open>Norms and the update of line 32\<close>

lemma sum_squares_nonneg: "0 \<le> sum_list (map (\<lambda>x. x * x) (v::real list))"
  by (rule sum_list_nonneg) auto

lemma linalg_norm_nonneg: "0 \<le> linalg_norm v"
  by (simp add: linalg_norm_def sum_squares_nonneg)

lemma sum_squares_scaled:
  "sum_list (map (\<lambda>x. x / c * (x / c)) v) = sum_list (map (\<lambda>x. x * x) v) / (c * c)"
  for c :: real
  by (induction v) (simp_all add: add_divide_distrib)

lemma linalg_norm_scaled:
  assumes "0 < c"
  shows "linalg_norm (map (\<lambda>x. x / c) v) = linalg_norm v / c"
proof -
  have "linalg_norm (map (\<lambda>x. x / c) v) = sqrt (sum_list (map (\<lambda>x. x / c * (x / c)) v))"
    by (simp add: linalg_norm_def comp_def)
  also have "\<dots> = sqrt (sum_list (map (\<lambda>x. x * x) v) / (c * c))"
    by (simp only: sum_squares_scaled)
  also have "\<dots> = sqrt (sum_list (map (\<lambda>x. x * x) v)) / sqrt (c * c)"
    by (rule real_sqrt_divide)
  also have "sqrt (c * c) = c" using assms by simp
  finally show ?thesis by (simp add: linalg_norm_def)
qed

lemma zeros_scaled: "map (\<lambda>x. x / c) (zeros d) = zeros d"
  by (simp add: zeros_def)

lemma linalg_norm_zeros: "linalg_norm (zeros d) = 0"
  by (simp add: linalg_norm_def zeros_def sum_list_replicate)

lemma iterations_Suc_last:
  "iterations (Suc n) eps Edges s =
     (case iterations n eps Edges s of Inl e \<Rightarrow> Inl e | Inr s' \<Rightarrow> iteration eps Edges s')"
proof (induction n arbitrary: s)
  case 0 then show ?case by (simp split: sum.splits)
next
  case (Suc n)
  show ?case
  proof (cases "iteration eps Edges s")
    case (Inl e) then show ?thesis by simp
  next
    case (Inr s1)
    have "iterations (Suc (Suc n)) eps Edges s = iterations (Suc n) eps Edges s1"
      using Inr by simp
    also have "\<dots> = (case iterations n eps Edges s1 of Inl e \<Rightarrow> Inl e | Inr s' \<Rightarrow> iteration eps Edges s')"
      by (rule Suc.IH)
    also have "iterations n eps Edges s1 = iterations (Suc n) eps Edges s" using Inr by simp
    finally show ?thesis .
  qed
qed

lemma iterations_last_update:
  assumes "iterations n eps Edges s = Inr s'" "0 < n"
  shows "Node_ID_2_Embedding s' = Embedding_New eps (Node_ID_2_Embedding_Temp s')"
proof -
  from assms(2) obtain m where n: "n = Suc m" by (cases n) auto
  from assms(1) obtain s1 where "iteration eps Edges s1 = Inr s'"
    unfolding n iterations_Suc_last by (auto split: sum.splits)
  then show ?thesis by (auto simp: iteration_Inr)
qed

lemma iteration_isolated:
  assumes "iteration eps Edges s = Inr s'" "isolated Edges k"
  shows "map_of (Node_ID_2_Embedding_Temp s') k = map_of (Node_ID_2_Embedding_Temp s) k"
proof -
  from assms(1) obtain T where
    T: "accumulate_pairs (Node_ID_2_Embedding s) (edge_pairs Edges) (Node_ID_2_Embedding_Temp s) = Inr T"
    and T': "Node_ID_2_Embedding_Temp s' = T"
    by (auto simp: iteration_Inr)
  show ?thesis
    using accumulate_pairs_lookup[OF T, of k] isolated_contributions[OF assms(2)]
    by (cases "map_of (Node_ID_2_Embedding_Temp s) k") (simp_all add: T' add_all_simps)
qed

lemma iterations_isolated:
  "iterations n eps Edges s = Inr s' \<Longrightarrow> isolated Edges k \<Longrightarrow>
   map_of (Node_ID_2_Embedding_Temp s') k = map_of (Node_ID_2_Embedding_Temp s) k"
proof (induction n arbitrary: s)
  case 0 then show ?case by simp
next
  case (Suc n)
  from Suc.prems(1) obtain s1 where 1: "iteration eps Edges s = Inr s1"
    and 2: "iterations n eps Edges s1 = Inr s'" by (auto split: sum.splits)
  from Suc.IH[OF 2 Suc.prems(2)] iteration_isolated[OF 1 Suc.prems(2)] show ?case by simp
qed

text \<open>
  Claim C4: a node of the node set that no edge mentions has the zero vector after every
  run of at least one iteration, whatever the initial vectors and for every positive
  epsilon: after the first iteration and after each later one.
\<close>

theorem isolated_node_zero:
  assumes "Diffusion d n eps Node_IDs Emb0 Edges = Inr s" "k \<in> set Node_IDs"
    "isolated Edges k" "0 < n" "0 < eps"
  shows "map_of (Node_ID_2_Embedding s) k = Some (zeros d)"
proof -
  have "map_of (Node_ID_2_Embedding_Temp s) k = Some (zeros d)"
    using iterations_isolated[OF assms(1)[unfolded Diffusion_def] assms(3)]
      zero_buffers_lookup[OF assms(2)] by simp
  moreover have "Node_ID_2_Embedding s = Embedding_New eps (Node_ID_2_Embedding_Temp s)"
    using iterations_last_update[OF assms(1)[unfolded Diffusion_def] assms(4)] .
  ultimately show ?thesis by (simp add: Embedding_New_lookup zeros_scaled)
qed

lemma linalg_norm_zero_components:
  assumes "linalg_norm b = 0"
  shows "\<forall>x \<in> set b. x = 0"
proof -
  from assms have "sum_list (map (\<lambda>x. x * x) b) = 0" by (simp add: linalg_norm_def)
  then have "\<forall>y \<in> set (map (\<lambda>x. x * x) b). y = 0"
    by (subst (asm) sum_list_nonneg_eq_0_iff) auto
  then show ?thesis by auto
qed

lemma zero_norm_scaled: "linalg_norm b = 0 \<Longrightarrow> map (\<lambda>x. x / c) b = b"
  using linalg_norm_zero_components[of b] by (intro map_idI) auto

text \<open>
  Claim C2, as the code has it: after every iteration the vector of a node is its buffer
  divided by the buffer's norm plus epsilon, and not by the norm. In the exact arithmetic
  of this model its norm is therefore \<open>norm b / (norm b + eps)\<close>; a node whose buffer
  is the zero vector has the zero vector, of norm 0.
\<close>

theorem update_divides_by_norm_plus_epsilon:
  assumes "Diffusion d n eps Node_IDs Emb0 Edges = Inr s" "0 < n" "0 < eps"
    "map_of (Node_ID_2_Embedding s) k = Some v"
  shows "\<exists>b. map_of (Node_ID_2_Embedding_Temp s) k = Some b \<and>
     v = map (\<lambda>x. x / (linalg_norm b + eps)) b \<and>
     linalg_norm v = linalg_norm b / (linalg_norm b + eps) \<and>
     (linalg_norm b = 0 \<longrightarrow> v = b \<and> linalg_norm v = 0)"
proof -
  have E: "Node_ID_2_Embedding s = Embedding_New eps (Node_ID_2_Embedding_Temp s)"
    using iterations_last_update[OF assms(1)[unfolded Diffusion_def] assms(2)] .
  with assms(4) obtain b where b: "map_of (Node_ID_2_Embedding_Temp s) k = Some b"
    and v: "v = map (\<lambda>x. x / (linalg_norm b + eps)) b"
    by (auto simp: Embedding_New_lookup)
  have pos: "0 < linalg_norm b + eps" using linalg_norm_nonneg[of b] assms(3) by simp
  have n: "linalg_norm v = linalg_norm b / (linalg_norm b + eps)"
    unfolding v by (rule linalg_norm_scaled[OF pos])
  have "v = b \<and> linalg_norm v = 0" if "linalg_norm b = 0"
    using that n zero_norm_scaled[OF that, of "linalg_norm b + eps"] v by simp
  with b v n show ?thesis by blast
qed

section \<open>Vectors along the first axis, for concrete runs\<close>

lemma zeros_EMBEDDING_SIZE: "zeros EMBEDDING_SIZE = 0 # zeros 31"
  by (simp add: zeros_def EMBEDDING_SIZE_def replicate_Suc[symmetric] del: replicate_Suc)

lemma vadd_Cons: "vadd (x # u) (y # v) = (x + y) # vadd u v"
  by (simp add: vadd_def)

lemma vadd_zeros: "vadd (zeros m) (zeros m) = zeros m"
  by (induction m) (simp_all add: vadd_def zeros_def)

lemma subtract_Cons: "subtract (x # u) (y # v) = (x - y) # subtract u v"
  by (simp add: subtract_def)

lemma subtract_zeros: "subtract (zeros m) (zeros m) = zeros m"
  by (induction m) (simp_all add: subtract_def zeros_def)

lemma linalg_norm_axis: "linalg_norm (x # zeros m) = \<bar>x\<bar>"
  by (simp add: linalg_norm_def zeros_def sum_list_replicate)

lemma np_mean_axis: "np_mean (x # zeros m) = Some (x / (1 + real m))"
  by (simp add: np_mean_def zeros_def sum_list_replicate)

lemma map_zeros: "f 0 = 0 \<Longrightarrow> map f (zeros m) = zeros m"
  by (simp add: zeros_def)

lemmas axis_simps = map_zeros zeros_EMBEDDING_SIZE vadd_Cons vadd_zeros subtract_Cons subtract_zeros
  linalg_norm_axis np_mean_axis zeros_scaled

section \<open>The buffer across iterations\<close>

lemma iteration_keys:
  "iteration eps Edges s = Inr s' \<Longrightarrow>
     map fst (Node_ID_2_Embedding_Temp s') = map fst (Node_ID_2_Embedding_Temp s)"
  by (auto simp: iteration_Inr dest: accumulate_pairs_keys)

lemma iterations_keys:
  "iterations n eps Edges s = Inr s' \<Longrightarrow>
     map fst (Node_ID_2_Embedding_Temp s') = map fst (Node_ID_2_Embedding_Temp s)"
proof (induction n arbitrary: s)
  case 0 then show ?case by simp
next
  case (Suc n)
  from Suc.prems(1) obtain s1 where 1: "iteration eps Edges s = Inr s1"
    and 2: "iterations n eps Edges s1 = Inr s'" by (auto split: sum.splits)
  from Suc.IH[OF 2] iteration_keys[OF 1] show ?case by simp
qed

text \<open>
  Claim C1, as the code has it: the buffers are zero before the first iteration (line 21)
  and are not reset afterwards. The buffer of a node after iteration \<open>n + 1\<close> is its
  buffer after iteration \<open>n\<close> plus the neighbour vectors that iteration \<open>n + 1\<close> adds.
\<close>

theorem buffer_carried_across_iterations:
  assumes "Diffusion d n eps Node_IDs Emb0 Edges = Inr s"
    "Diffusion d (Suc n) eps Node_IDs Emb0 Edges = Inr s'" "k \<in> set Node_IDs"
  shows "map_of (zero_buffers d Node_IDs) k = Some (zeros d) \<and>
    (\<exists>b. map_of (Node_ID_2_Embedding_Temp s) k = Some b \<and>
       map_of (Node_ID_2_Embedding_Temp s') k =
         Some (add_all (contributions (Node_ID_2_Embedding s) k (edge_pairs Edges)) b))"
proof -
  let ?s0 = "\<lparr>Node_ID_2_Embedding = Emb0, Node_ID_2_Embedding_Temp = zero_buffers d Node_IDs, Losses = []\<rparr>"
  from assms(1) have n: "iterations n eps Edges ?s0 = Inr s" by (simp add: Diffusion_def)
  from assms(2) have "iterations (Suc n) eps Edges ?s0 = Inr s'" by (simp only: Diffusion_def)
  with n have step: "iteration eps Edges s = Inr s'" by (simp only: iterations_Suc_last sum.case)
  have "set (map fst (Node_ID_2_Embedding_Temp s)) = set (map fst (zero_buffers d Node_IDs))"
    using iterations_keys[OF n] by simp
  then have "fst ` set (Node_ID_2_Embedding_Temp s) = set Node_IDs"
    using zero_buffers_keys[of d Node_IDs] by simp
  with assms(3) obtain b where b: "map_of (Node_ID_2_Embedding_Temp s) k = Some b"
    using key_iff[of k "Node_ID_2_Embedding_Temp s"] by auto
  from step obtain T where
    T: "accumulate_pairs (Node_ID_2_Embedding s) (edge_pairs Edges) (Node_ID_2_Embedding_Temp s) = Inr T"
    and T': "Node_ID_2_Embedding_Temp s' = T"
    by (auto simp: iteration_Inr)
  from accumulate_pairs_lookup[OF T, of k] b zero_buffers_lookup[OF assms(3)]
  show ?thesis by (simp add: T')
qed

section \<open>Symmetry of the update in the stored endpoint\<close>


lemma Diffusion_ok:
  "shaped d ids Emb0 \<Longrightarrow> valid_edges ids Edges \<Longrightarrow> \<exists>s. Diffusion d n eps ids Emb0 Edges = Inr s"
  unfolding Diffusion_def by (rule iterations_ok[OF initial_consistent])














section \<open>Runs on small graphs\<close>

lemma shaped_axis3: "shaped EMBEDDING_SIZE [1, 2, 3] [(1, 1 # zeros 31), (2, 1 # zeros 31), (3, 1 # zeros 31)]"
  by (simp add: shaped_def zeros_def EMBEDDING_SIZE_def)

lemma shaped_axis2: "shaped EMBEDDING_SIZE [1, 2] [(1, 1 # zeros 31), (2, (- 1) # zeros 31)]"
  by (simp add: shaped_def zeros_def EMBEDDING_SIZE_def)

lemma valid_edges_12: "valid_edges [1, 2, 3] [(1, [2])]" "valid_edges [1, 2] [(1, [2])]"
  "valid_edges [1, 2] [(2, [1])]"
  by (simp_all add: valid_edges_def edge_pairs_def)


theorem isolated_node_zero_witness:
  "3 \<in> set [1, 2, 3 :: int] \<and> isolated [(1, [2])] 3 \<and> 0 < ITERATION_COUNT \<and> 0 < EPSILON \<and>
   (\<exists>s. Diffusion EMBEDDING_SIZE ITERATION_COUNT EPSILON [1, 2, 3]
           [(1, 1 # zeros 31), (2, 1 # zeros 31), (3, 1 # zeros 31)] [(1, [2])] = Inr s \<and>
        map_of (Node_ID_2_Embedding s) 3 = Some (zeros EMBEDDING_SIZE))"
proof -
  have h: "3 \<in> set [1, 2, 3 :: int]" "isolated [(1, [2])] 3" "0 < ITERATION_COUNT" "0 < EPSILON"
    by (simp_all add: isolated_def edge_pairs_def ITERATION_COUNT_def EPSILON_def)
  from Diffusion_ok[OF shaped_axis3 valid_edges_12(1)] obtain s where
    s: "Diffusion EMBEDDING_SIZE ITERATION_COUNT EPSILON [1, 2, 3]
           [(1, 1 # zeros 31), (2, 1 # zeros 31), (3, 1 # zeros 31)] [(1, [2])] = Inr s"
    by blast
  from isolated_node_zero[OF s h] s h show ?thesis by blast
qed

lemma Diffusion_keys:
  assumes "Diffusion d n eps ids Emb0 Edges = Inr s" "shaped d ids Emb0" "k \<in> set ids"
  shows "\<exists>v. map_of (Node_ID_2_Embedding s) k = Some v"
proof -
  have "consistent d ids s"
    using iterations_consistent[OF assms(1)[unfolded Diffusion_def] initial_consistent[OF assms(2)]] .
  then have "fst ` set (Node_ID_2_Embedding s) = set ids" by (simp add: consistent_def shaped_def)
  with assms(3) show ?thesis using key_iff[of k "Node_ID_2_Embedding s"] by simp
qed

theorem update_divides_by_norm_plus_epsilon_witness:
  "0 < ITERATION_COUNT \<and> 0 < EPSILON \<and>
   (\<exists>s v. Diffusion EMBEDDING_SIZE ITERATION_COUNT EPSILON [1, 2, 3]
           [(1, 1 # zeros 31), (2, 1 # zeros 31), (3, 1 # zeros 31)] [(1, [2])] = Inr s \<and>
        map_of (Node_ID_2_Embedding s) 1 = Some v \<and>
        (\<exists>b. map_of (Node_ID_2_Embedding_Temp s) 1 = Some b \<and>
           v = map (\<lambda>x. x / (linalg_norm b + EPSILON)) b \<and>
           linalg_norm v = linalg_norm b / (linalg_norm b + EPSILON)))"
proof -
  have h: "0 < ITERATION_COUNT" "0 < EPSILON"
    by (simp_all add: ITERATION_COUNT_def EPSILON_def)
  from Diffusion_ok[OF shaped_axis3 valid_edges_12(1)] obtain s where
    s: "Diffusion EMBEDDING_SIZE ITERATION_COUNT EPSILON [1, 2, 3]
           [(1, 1 # zeros 31), (2, 1 # zeros 31), (3, 1 # zeros 31)] [(1, [2])] = Inr s"
    by blast
  from Diffusion_keys[OF s shaped_axis3, of 1] obtain v where
    v: "map_of (Node_ID_2_Embedding s) 1 = Some v" by auto
  from update_divides_by_norm_plus_epsilon[OF s h v] s v h show ?thesis by blast
qed

theorem buffer_carried_across_iterations_witness:
  "1 \<in> set [1, 2 :: int] \<and>
   (\<exists>s s'. Diffusion EMBEDDING_SIZE 1 EPSILON [1, 2] [(1, 1 # zeros 31), (2, (- 1) # zeros 31)] [(1, [2])] = Inr s \<and>
      Diffusion EMBEDDING_SIZE (Suc 1) EPSILON [1, 2] [(1, 1 # zeros 31), (2, (- 1) # zeros 31)] [(1, [2])] = Inr s' \<and>
      map_of (zero_buffers EMBEDDING_SIZE [1, 2]) 1 = Some (zeros EMBEDDING_SIZE) \<and>
      (\<exists>b. map_of (Node_ID_2_Embedding_Temp s) 1 = Some b \<and>
         map_of (Node_ID_2_Embedding_Temp s') 1 =
           Some (add_all (contributions (Node_ID_2_Embedding s) 1 (edge_pairs [(1, [2])])) b)))"
proof -
  from Diffusion_ok[OF shaped_axis2 valid_edges_12(2)] obtain s where
    s: "Diffusion EMBEDDING_SIZE 1 EPSILON [1, 2] [(1, 1 # zeros 31), (2, (- 1) # zeros 31)] [(1, [2])] = Inr s"
    by blast
  from Diffusion_ok[OF shaped_axis2 valid_edges_12(2)] obtain s' where
    s': "Diffusion EMBEDDING_SIZE (Suc 1) EPSILON [1, 2] [(1, 1 # zeros 31), (2, (- 1) # zeros 31)] [(1, [2])] = Inr s'"
    by blast
  have k: "1 \<in> set [1, 2 :: int]" by simp
  from buffer_carried_across_iterations[OF s s' k] s s' k show ?thesis by blast
qed

text \<open>
  Two iterations with the script's constants on the graph with the one edge 1 - 2: the
  second iteration starts from the buffers -1 and 1 the first one left and ends with
  -1/101 and 1/101, and not with the neighbour vectors 100/101 and -100/101 that an
  accumulation from zero buffers gives.
\<close>

theorem buffer_not_reset_example:
  "Diffusion EMBEDDING_SIZE 1 EPSILON [1, 2] [(1, 1 # zeros 31), (2, (- 1) # zeros 31)] [(1, [2])] =
   Inr \<lparr>Node_ID_2_Embedding = [(1, (- (100 / 101)) # zeros 31), (2, (100 / 101) # zeros 31)],
        Node_ID_2_Embedding_Temp = [(1, (- 1) # zeros 31), (2, 1 # zeros 31)],
        Losses = [Some (201 / 3232)]\<rparr> \<and>
   Diffusion EMBEDDING_SIZE 2 EPSILON [1, 2] [(1, 1 # zeros 31), (2, (- 1) # zeros 31)] [(1, [2])] =
   Inr \<lparr>Node_ID_2_Embedding = [(1, (- (100 / 201)) # zeros 31), (2, (100 / 201) # zeros 31)],
        Node_ID_2_Embedding_Temp = [(1, (- (1 / 101)) # zeros 31), (2, (1 / 101) # zeros 31)],
        Losses = [Some (201 / 3232), Some (625 / 40602)]\<rparr> \<and>
   accumulate [(1, (- (100 / 101)) # zeros 31), (2, (100 / 101) # zeros 31)] [(1, [2])]
       (zero_buffers EMBEDDING_SIZE [1, 2]) =
   Inr [(1, (100 / 101) # zeros 31), (2, (- (100 / 101)) # zeros 31)]"
  by (simp add: Diffusion_def zero_buffers_def iteration_def add_to_def Embedding_New_def
      np_mean_nan_def EPSILON_def axis_simps numeral_2_eq_2)

text \<open>
  After the first iteration of a run with the script's constants the two joined nodes have
  vectors of norm 100/101 and the isolated node has the zero vector: none has norm one.
\<close>

theorem update_norm_not_unit_example:
  "Diffusion EMBEDDING_SIZE 1 EPSILON [1, 2, 3]
      [(1, 1 # zeros 31), (2, 1 # zeros 31), (3, 1 # zeros 31)] [(1, [2])] =
   Inr \<lparr>Node_ID_2_Embedding = [(1, (100 / 101) # zeros 31), (2, (100 / 101) # zeros 31), (3, 0 # zeros 31)],
        Node_ID_2_Embedding_Temp = [(1, 1 # zeros 31), (2, 1 # zeros 31), (3, 0 # zeros 31)],
        Losses = [Some (103 / 9696)]\<rparr> \<and>
   linalg_norm ((100 / 101) # zeros 31) = 100 / 101 \<and> linalg_norm (0 # zeros 31) = 0"
  by (simp add: Diffusion_def zero_buffers_def iteration_def add_to_def Embedding_New_def
      np_mean_nan_def EPSILON_def axis_simps)

section \<open>Float32 buffers and the order of additions\<close>















section \<open>Graphs without edges\<close>

lemma all_zero_Embedding_New:
  "\<forall>kv \<in> set T. snd kv = zeros d \<Longrightarrow> Embedding_New eps T = T"
  unfolding Embedding_New_def by (induction T) (auto simp: zeros_scaled)

lemma zero_buffers_all_zero: "\<forall>kv \<in> set (zero_buffers d ids). snd kv = zeros d"
  using zero_buffers_values by force

lemma subtract_zeros_right: "length v = d \<Longrightarrow> subtract v (zeros d) = v"
  unfolding subtract_def zeros_def by (induction v arbitrary: d) auto

lemma node_losses_zero:
  "fst ` set Emb \<subseteq> fst ` set Z \<Longrightarrow> \<forall>kv \<in> set Z. snd kv = zeros d \<Longrightarrow>
   \<forall>kv \<in> set Emb. length (snd kv) = d \<Longrightarrow>
   node_losses Emb Z = Inr (map (\<lambda>kv. np_mean (map abs (snd kv))) Emb)"
proof (induction Emb)
  case Nil then show ?case by simp
next
  case (Cons kv Emb)
  obtain k v where kv: "kv = (k, v)" by (cases kv)
  from Cons.prems(1) obtain w where w: "map_of Z k = Some w"
    using key_iff[of k Z] by (auto simp: kv)
  from map_of_SomeD[OF w] Cons.prems(2) have "w = zeros d" by auto
  moreover have "length v = d" using Cons.prems(3) by (simp add: kv)
  moreover have "node_losses Emb Z = Inr (map (\<lambda>kv. np_mean (map abs (snd kv))) Emb)"
    using Cons by simp
  ultimately show ?case using w by (simp add: kv subtract_zeros_right)
qed

lemma sum_list_pos_real: "xs \<noteq> [] \<Longrightarrow> \<forall>x \<in> set xs. 0 < x \<Longrightarrow> 0 < sum_list xs" for xs :: "real list"
proof (induction xs)
  case Nil then show ?case by simp
next
  case (Cons x xs)
  then show ?case by (cases xs) (auto intro: add_pos_pos)
qed

lemma abs_sum_zero_norm:
  assumes "sum_list (map abs v) = 0"
  shows "linalg_norm v = 0"
proof -
  have "\<forall>x \<in> set (map abs v). x = 0"
    using assms by (subst (asm) sum_list_nonneg_eq_0_iff) auto
  then have "\<forall>x \<in> set v. x = 0" by auto
  then have "sum_list (map (\<lambda>x. x * x) v) = 0" by (induction v) auto
  then show ?thesis by (simp add: linalg_norm_def)
qed

lemma unit_mean_abs_pos:
  assumes "linalg_norm v \<noteq> 0"
  shows "\<exists>r. 0 < r \<and> np_mean (map abs v) = Some r"
proof -
  have "v \<noteq> []" using assms by (auto simp: linalg_norm_def)
  have "sum_list (map abs v) \<noteq> 0" using abs_sum_zero_norm[of v] assms by auto
  moreover have "0 \<le> sum_list (map abs v)" by (rule sum_list_nonneg) auto
  ultimately have "0 < sum_list (map abs v)" by simp
  with \<open>v \<noteq> []\<close> show ?thesis by (simp add: np_mean_def)
qed

lemma np_mean_nan_pos:
  assumes "Loss \<noteq> []" "\<forall>l \<in> set Loss. \<exists>r. 0 < r \<and> l = Some r"
  shows "\<exists>r. 0 < r \<and> np_mean_nan Loss = Some r"
proof -
  have "None \<notin> set Loss" using assms(2) by auto
  moreover have "0 < sum_list (map the Loss)"
  proof (rule sum_list_pos_real)
    show "map the Loss \<noteq> []" using assms(1) by simp
    show "\<forall>x \<in> set (map the Loss). 0 < x" using assms(2) by auto
  qed
  ultimately show ?thesis using assms(1) by (simp add: np_mean_nan_def)
qed

lemma np_mean_nan_zero: "0 < m \<Longrightarrow> np_mean_nan (replicate m (Some 0)) = Some 0"
  by (simp add: np_mean_nan_def sum_list_replicate)

lemma np_mean_zeros: "0 < d \<Longrightarrow> np_mean (map abs (zeros d)) = Some 0"
  by (simp add: np_mean_def zeros_def sum_list_replicate)

lemma no_edges_accumulate: "edge_pairs Edges = [] \<Longrightarrow> accumulate Emb Edges Temp = Inr Temp"
  by (simp add: accumulate_pairs_eq)

lemma first_iteration_no_edges:
  assumes "edge_pairs Edges = []" "Node_IDs \<noteq> []" "shaped d Node_IDs Emb0"
    "\<forall>kv \<in> set Emb0. linalg_norm (snd kv) \<noteq> 0"
  shows "\<exists>l. 0 < l \<and>
    iteration eps Edges \<lparr>Node_ID_2_Embedding = Emb0,
       Node_ID_2_Embedding_Temp = zero_buffers d Node_IDs, Losses = []\<rparr> =
    Inr \<lparr>Node_ID_2_Embedding = zero_buffers d Node_IDs,
         Node_ID_2_Embedding_Temp = zero_buffers d Node_IDs, Losses = [Some l]\<rparr>"
proof -
  let ?Z = "zero_buffers d Node_IDs"
  let ?Loss = "map (\<lambda>kv. np_mean (map abs (snd kv))) Emb0"
  have N: "Embedding_New eps ?Z = ?Z"
    by (rule all_zero_Embedding_New[OF zero_buffers_all_zero])
  have L: "node_losses Emb0 ?Z = Inr ?Loss"
    using assms(3) by (intro node_losses_zero[OF _ zero_buffers_all_zero])
      (simp_all add: shaped_def zero_buffers_keys)
  have "Emb0 \<noteq> []" by (rule shaped_nonempty[OF assms(3,2)])
  then have "?Loss \<noteq> []" by simp
  moreover have "\<forall>l \<in> set ?Loss. \<exists>r. 0 < r \<and> l = Some r"
    using assms(4) unit_mean_abs_pos by auto
  ultimately obtain l where l: "0 < l" "np_mean_nan ?Loss = Some l"
    using np_mean_nan_pos by blast
  show ?thesis
    using l by (simp add: iteration_def Let_def no_edges_accumulate[OF assms(1)] N L)
qed

lemma later_iterations_no_edges:
  assumes "edge_pairs Edges = []" "Node_IDs \<noteq> []" "0 < d"
  shows "iterations m eps Edges \<lparr>Node_ID_2_Embedding = zero_buffers d Node_IDs,
       Node_ID_2_Embedding_Temp = zero_buffers d Node_IDs, Losses = L\<rparr> =
    Inr \<lparr>Node_ID_2_Embedding = zero_buffers d Node_IDs,
         Node_ID_2_Embedding_Temp = zero_buffers d Node_IDs, Losses = L @ replicate m (Some 0)\<rparr>"
proof (induction m arbitrary: L)
  case 0 then show ?case by simp
next
  case (Suc m)
  let ?Z = "zero_buffers d Node_IDs"
  have N: "Embedding_New eps ?Z = ?Z"
    by (rule all_zero_Embedding_New[OF zero_buffers_all_zero])
  have "node_losses ?Z ?Z = Inr (map (\<lambda>kv. np_mean (map abs (snd kv))) ?Z)"
    using zero_buffers_shaped[of d Node_IDs]
    by (intro node_losses_zero[OF _ zero_buffers_all_zero]) (simp_all add: shaped_def)
  also have "map (\<lambda>kv. np_mean (map abs (snd kv))) ?Z = replicate (length ?Z) (Some 0)"
  proof -
    have "map (\<lambda>kv. np_mean (map abs (snd kv))) ?Z = map (\<lambda>kv. Some 0) ?Z"
      using zero_buffers_all_zero[of d Node_IDs] np_mean_zeros[OF assms(3)]
      by (intro map_cong) auto
    then show ?thesis by (simp add: map_replicate_const)
  qed
  finally have L: "node_losses ?Z ?Z = Inr (replicate (length ?Z) (Some 0))" .
  have "?Z \<noteq> []" by (rule shaped_nonempty[OF zero_buffers_shaped assms(2)])
  then have M: "np_mean_nan (replicate (length ?Z) (Some 0)) = Some 0"
    by (intro np_mean_nan_zero) simp
  have "iteration eps Edges \<lparr>Node_ID_2_Embedding = ?Z, Node_ID_2_Embedding_Temp = ?Z, Losses = L\<rparr> =
    Inr \<lparr>Node_ID_2_Embedding = ?Z, Node_ID_2_Embedding_Temp = ?Z, Losses = L @ [Some 0]\<rparr>"
    by (simp add: iteration_def Let_def no_edges_accumulate[OF assms(1)] N L M)
  then show ?case using Suc[of "L @ [Some 0]"] by (simp add: replicate_append_same)
qed

text \<open>
  Claim C5: on a graph with nodes and no edge, started from vectors of non-zero norm (of
  norm one after the initialisation), the run returns, the first loss is not zero and
  every later loss is exactly zero.
\<close>

theorem zero_edges_loss_trajectory:
  assumes "edge_pairs Edges = []" "Node_IDs \<noteq> []" "shaped d Node_IDs Emb0"
    "\<forall>kv \<in> set Emb0. linalg_norm (snd kv) \<noteq> 0" "0 < eps" "0 < n"
  shows "\<exists>s l. Diffusion d n eps Node_IDs Emb0 Edges = Inr s \<and>
           Losses s = Some l # replicate (n - 1) (Some 0) \<and> l \<noteq> 0"
proof -
  from assms(6) obtain m where n: "n = Suc m" by (cases n) auto
  have "Emb0 \<noteq> []" by (rule shaped_nonempty[OF assms(3,2)])
  then obtain kv where "kv \<in> set Emb0" by (cases Emb0) auto
  with assms(3,4) have "length (snd kv) = d" "linalg_norm (snd kv) \<noteq> 0"
    by (auto simp: shaped_def)
  then have d: "0 < d" by (cases "snd kv") (auto simp: linalg_norm_def)
  from first_iteration_no_edges[OF assms(1,2,3,4), of eps] obtain l where l: "0 < l"
    and 1: "iteration eps Edges \<lparr>Node_ID_2_Embedding = Emb0,
       Node_ID_2_Embedding_Temp = zero_buffers d Node_IDs, Losses = []\<rparr> =
    Inr \<lparr>Node_ID_2_Embedding = zero_buffers d Node_IDs,
         Node_ID_2_Embedding_Temp = zero_buffers d Node_IDs, Losses = [Some l]\<rparr>"
    by blast
  have "Diffusion d n eps Node_IDs Emb0 Edges =
      Inr \<lparr>Node_ID_2_Embedding = zero_buffers d Node_IDs,
         Node_ID_2_Embedding_Temp = zero_buffers d Node_IDs,
         Losses = [Some l] @ replicate m (Some 0)\<rparr>"
    unfolding Diffusion_def n
    by (simp add: 1 later_iterations_no_edges[OF assms(1,2) d])
  with l show ?thesis by (simp add: n)
qed

theorem zero_edges_loss_trajectory_witness:
  "edge_pairs [(1, [])] = [] \<and> [1, 2] \<noteq> ([] :: int list) \<and>
   shaped EMBEDDING_SIZE [1, 2] [(1, 1 # zeros 31), (2, (- 1) # zeros 31)] \<and>
   linalg_norm (1 # zeros 31) = 1 \<and> linalg_norm ((- 1) # zeros 31) = 1 \<and>
   0 < EPSILON \<and> 0 < ITERATION_COUNT \<and>
   (\<exists>s l. Diffusion EMBEDDING_SIZE ITERATION_COUNT EPSILON [1, 2]
             [(1, 1 # zeros 31), (2, (- 1) # zeros 31)] [(1, [])] = Inr s \<and>
           Losses s = Some l # replicate (ITERATION_COUNT - 1) (Some 0) \<and> l \<noteq> 0)"
proof -
  have h: "edge_pairs [(1, [])] = []" "[1, 2] \<noteq> ([] :: int list)"
    "\<forall>kv \<in> set [(1 :: int, 1 # zeros 31), (2, (- 1) # zeros 31)]. linalg_norm (snd kv) \<noteq> 0"
    "0 < EPSILON" "0 < ITERATION_COUNT"
    by (simp_all add: edge_pairs_def linalg_norm_axis EPSILON_def ITERATION_COUNT_def)
  from zero_edges_loss_trajectory[OF h(1,2) shaped_axis2 h(3,4,5)] h shaped_axis2
  show ?thesis by (simp add: linalg_norm_axis)
qed

section \<open>The initial vectors\<close>

lemma rescale_unit:
  assumes "linalg_norm s \<noteq> 0"
  shows "\<exists>v. rescale s = Some v \<and> linalg_norm v = 1 \<and> length v = length s"
proof -
  have pos: "0 < linalg_norm s" using assms linalg_norm_nonneg[of s] by simp
  have "linalg_norm (map (\<lambda>x. x / linalg_norm s) s) = 1"
    using linalg_norm_scaled[OF pos, of s] assms by simp
  with assms show ?thesis by (simp add: rescale_def)
qed

lemma Initialize_loop_other:
  "k \<notin> set ids \<Longrightarrow> map_of (Initialize_loop sample i ids D) k = map_of D k"
  by (induction ids arbitrary: i D) (auto simp: update_conv')

lemma Initialize_loop_nth:
  "distinct ids \<Longrightarrow> j < length ids \<Longrightarrow>
   map_of (Initialize_loop sample i ids D) (ids ! j) = Some (rescale (sample (i + j)))"
proof (induction ids arbitrary: i D j)
  case Nil then show ?case by simp
next
  case (Cons x xs)
  show ?case
  proof (cases j)
    case 0
    with Cons.prems(1) show ?thesis by (simp add: Initialize_loop_other update_conv')
  next
    case (Suc j')
    with Cons.prems have "distinct xs" "j' < length xs" by auto
    from Cons.IH[OF this, of "Suc i" "AList.update x (rescale (sample i)) D"] Suc
    show ?thesis by simp
  qed
qed

text \<open>
  Claim C3, as the code has it: the vector of the \<open>i\<close>-th node is the \<open>i\<close>-th array
  drawn, divided by its norm. It has norm one and the length of the array when that norm
  is not zero; when it is zero the division is 0/0 and the vector is NaN. No array is
  drawn a second time.
\<close>

theorem initial_vector_from_one_sample:
  assumes "distinct Node_IDs" "i < length Node_IDs"
  shows "map_of (Initialize sample Node_IDs) (Node_IDs ! i) = Some (rescale (sample i)) \<and>
    (linalg_norm (sample i) \<noteq> 0 \<longrightarrow>
       (\<exists>v. rescale (sample i) = Some v \<and> linalg_norm v = 1 \<and> length v = length (sample i))) \<and>
    (linalg_norm (sample i) = 0 \<longrightarrow> rescale (sample i) = None)"
  using Initialize_loop_nth[OF assms, of sample 0 "[]"] rescale_unit[of "sample i"]
  by (auto simp: Initialize_def rescale_def)

theorem initial_vector_from_one_sample_witness:
  "distinct [7 :: int] \<and> (0 :: nat) < length [7 :: int] \<and>
   map_of (Initialize ((!) [3 # 4 # zeros 30, zeros EMBEDDING_SIZE]) [7]) ([7] ! 0) =
      Some (rescale ([3 # 4 # zeros 30, zeros EMBEDDING_SIZE] ! 0)) \<and>
   linalg_norm ([3 # 4 # zeros 30, zeros EMBEDDING_SIZE] ! 0) \<noteq> 0 \<and>
   (\<exists>v. rescale ([3 # 4 # zeros 30, zeros EMBEDDING_SIZE] ! 0) = Some v \<and> linalg_norm v = 1 \<and>
        length v = length ([3 # 4 # zeros 30, zeros EMBEDDING_SIZE] ! 0))"
proof -
  have "linalg_norm (3 # 4 # zeros 30) = sqrt 25"
    by (simp add: linalg_norm_def zeros_def sum_list_replicate)
  then have n: "linalg_norm ([3 # 4 # zeros 30, zeros EMBEDDING_SIZE] ! 0) \<noteq> 0" by simp
  have h: "distinct [7 :: int]" "(0 :: nat) < length [7 :: int]" by simp_all
  from initial_vector_from_one_sample[OF h, of "(!) [3 # 4 # zeros 30, zeros EMBEDDING_SIZE]"] n h
  show ?thesis by blast
qed

text \<open>
  A generator whose first array is zero and whose second array has norm one: the node
  gets the NaN vector of the first array, and the second array is not used.
\<close>

theorem zero_sample_not_resampled:
  "Initialize ((!) [zeros EMBEDDING_SIZE, 1 # zeros 31]) [7] = [(7, None)] \<and>
   linalg_norm (zeros EMBEDDING_SIZE) = 0 \<and> linalg_norm (1 # zeros 31) = 1"
  by (simp add: Initialize_def rescale_def linalg_norm_zeros linalg_norm_axis)







section \<open>Export and projection\<close>

lemma update_new_key: "k \<notin> fst ` set D \<Longrightarrow> AList.update k v D = D @ [(k, v)]"
  by (induction D) auto

lemma fold_update_distinct_items:
  "distinct (map fst (D @ xs)) \<Longrightarrow>
   fold (\<lambda>(node_id, embedding) D. AList.update node_id embedding D) xs D = D @ xs"
proof (induction xs arbitrary: D)
  case Nil then show ?case by simp
next
  case (Cons x xs)
  obtain k v where x: "x = (k, v)" by (cases x)
  from Cons.prems have "k \<notin> fst ` set D" by (auto simp: x)
  then have u: "AList.update k v D = D @ [(k, v)]" by (rule update_new_key)
  from Cons.prems have "distinct (map fst ((D @ [(k, v)]) @ xs))" by (simp add: x)
  from Cons.IH[OF this] show ?case by (simp add: x u)
qed

lemma embeddings_to_save_id: "distinct (map fst Emb) \<Longrightarrow> embeddings_to_save Emb = Emb"
  using fold_update_distinct_items[of "[]" Emb] by (simp add: embeddings_to_save_def)

text \<open>
  Claim C10: when the diffusion loop returns, Node_Embeddings.json holds the final
  vectors, one of dimension \<open>d\<close> for each node, whatever the projection does; a
  projection that raises ends the run with its exception after the file is written.
\<close>

theorem export_independent_of_projection:
  assumes "Diffusion d n eps Node_IDs Emb0 Edges = Inr s" "shaped d Node_IDs Emb0"
  shows "Node_Embeddings_json (Embedding_script d n eps Node_IDs Emb0 Edges fit_transform) =
           Some (Node_ID_2_Embedding s) \<and>
         shaped d Node_IDs (Node_ID_2_Embedding s) \<and>
         (fit_transform (map snd (Node_ID_2_Embedding s)) = Inl e \<longrightarrow>
            plotted (Embedding_script d n eps Node_IDs Emb0 Edges fit_transform) = Inl e)"
proof -
  have "consistent d Node_IDs s"
    using iterations_consistent[OF assms(1)[unfolded Diffusion_def] initial_consistent[OF assms(2)]] .
  then have sh: "shaped d Node_IDs (Node_ID_2_Embedding s)" by (simp add: consistent_def)
  then have "embeddings_to_save (Node_ID_2_Embedding s) = Node_ID_2_Embedding s"
    by (intro embeddings_to_save_id) (simp add: shaped_def)
  with sh assms(1) show ?thesis
    by (auto simp: Embedding_script_def Let_def split: sum.splits)
qed

theorem export_independent_of_projection_witness:
  "shaped EMBEDDING_SIZE [1, 2] [(1, 1 # zeros 31), (2, (- 1) # zeros 31)] \<and>
   (\<exists>s. Diffusion EMBEDDING_SIZE ITERATION_COUNT EPSILON [1, 2]
             [(1, 1 # zeros 31), (2, (- 1) # zeros 31)] [(1, [2])] = Inr s \<and>
     Node_Embeddings_json (Embedding_script EMBEDDING_SIZE ITERATION_COUNT EPSILON [1, 2]
             [(1, 1 # zeros 31), (2, (- 1) # zeros 31)] [(1, [2])] (\<lambda>X. Inl ProjectionError)) =
           Some (Node_ID_2_Embedding s) \<and>
     shaped EMBEDDING_SIZE [1, 2] (Node_ID_2_Embedding s) \<and>
     plotted (Embedding_script EMBEDDING_SIZE ITERATION_COUNT EPSILON [1, 2]
             [(1, 1 # zeros 31), (2, (- 1) # zeros 31)] [(1, [2])] (\<lambda>X. Inl ProjectionError)) =
           Inl ProjectionError)"
proof -
  from Diffusion_ok[OF shaped_axis2 valid_edges_12(2)] obtain s where
    s: "Diffusion EMBEDDING_SIZE ITERATION_COUNT EPSILON [1, 2]
             [(1, 1 # zeros 31), (2, (- 1) # zeros 31)] [(1, [2])] = Inr s"
    by blast
  from export_independent_of_projection[OF s shaped_axis2, of "\<lambda>X. Inl ProjectionError" ProjectionError]
    s shaped_axis2
  show ?thesis by auto
qed

section \<open>Sparsification\<close>

lemma index_of_member: "k \<in> set ids \<Longrightarrow> \<exists>i. index_of ids k = Inr i \<and> i < length ids"
  by (induction ids) auto

lemma point_of_ok:
  "k \<in> set ids \<Longrightarrow> length ids \<le> length pts \<Longrightarrow> \<exists>p. point_of ids pts k = Inr p"
  using index_of_member[of k ids] by (auto simp: point_of_def)

lemma lengths_Bs_ok:
  "\<forall>B \<in> set Bs. \<exists>p. point_of ids pts B = Inr p \<Longrightarrow>
   lengths_Bs ids pts pA Bs = Inr (map (\<lambda>B. segment_length pA (projr (point_of ids pts B))) Bs)"
  by (induction Bs) auto

lemma plot_Bs_ok:
  "\<forall>B \<in> set Bs. \<exists>p. point_of ids pts B = Inr p \<Longrightarrow>
   plot_Bs ids pts thr pA Bs =
     Inr (map (\<lambda>B. ([fst pA, fst (projr (point_of ids pts B))], [snd pA, snd (projr (point_of ids pts B))]))
           (filter (\<lambda>B. segment_length pA (projr (point_of ids pts B)) \<le> thr) Bs))"
  by (induction Bs) auto

lemma edge_pairs_Cons: "edge_pairs ((A, Bs) # Es) = map (Pair A) Bs @ edge_pairs Es"
  by (simp add: edge_pairs_def)

lemma plottable_Cons:
  "plottable ids pts ((A, Bs) # Es) \<longleftrightarrow>
     A \<in> set ids \<and> set Bs \<subseteq> set ids \<and> plottable ids pts Es"
  by (auto simp: plottable_def)

lemma Edge_Lengths_2D_ok:
  "plottable ids pts Edges \<Longrightarrow>
   Edge_Lengths_2D ids pts Edges = Inr (map (edge_length ids pts) (edge_pairs Edges))"
proof (induction Edges)
  case Nil then show ?case by (simp add: edge_pairs_def)
next
  case (Cons ab Es)
  obtain A Bs where ab: "ab = (A, Bs)" by (cases ab)
  from Cons.prems have A: "A \<in> set ids" and Bs: "set Bs \<subseteq> set ids"
    and Es: "plottable ids pts Es" and len: "length ids \<le> length pts"
    by (auto simp: ab plottable_def)
  from point_of_ok[OF A len] obtain pA where pA: "point_of ids pts A = Inr pA" by blast
  have "\<forall>B \<in> set Bs. \<exists>p. point_of ids pts B = Inr p" using Bs len point_of_ok by blast
  from lengths_Bs_ok[OF this, of pA] Cons.IH[OF Es] pA show ?case
    by (simp add: ab edge_pairs_Cons edge_length_def comp_def)
qed

lemma plot_edges_ok:
  "plottable ids pts Edges \<Longrightarrow>
   plot_edges ids pts thr Edges =
     Inr (map (edge_segment ids pts)
           (filter (\<lambda>p. edge_length ids pts p \<le> thr) (edge_pairs Edges)))"
proof (induction Edges)
  case Nil then show ?case by (simp add: edge_pairs_def)
next
  case (Cons ab Es)
  obtain A Bs where ab: "ab = (A, Bs)" by (cases ab)
  from Cons.prems have A: "A \<in> set ids" and Bs: "set Bs \<subseteq> set ids"
    and Es: "plottable ids pts Es" and len: "length ids \<le> length pts"
    by (auto simp: ab plottable_def)
  from point_of_ok[OF A len] obtain pA where pA: "point_of ids pts A = Inr pA" by blast
  have "\<forall>B \<in> set Bs. \<exists>p. point_of ids pts B = Inr p" using Bs len point_of_ok by blast
  from plot_Bs_ok[OF this, of thr pA] Cons.IH[OF Es] pA show ?case
    by (simp add: ab edge_pairs_Cons edge_length_def edge_segment_def filter_map comp_def Let_def)
qed

lemma segment_length_horizontal: "segment_length (x, 0) (x', 0) = \<bar>x - x'\<bar>"
  by (simp add: segment_length_def linalg_norm_def)

text \<open>
  Claim C9: when there is an edge and every edge endpoint has a projected point, the
  threshold is a number and the segments plotted are those of the edges whose projected
  length is at most that 90th percentile of all edge lengths, in the order of the edges;
  an edge strictly longer than the percentile is not plotted.
\<close>

theorem sparsification_keeps_edges_up_to_percentile:
  assumes "plottable Node_IDs pts Edges" "edge_pairs Edges \<noteq> []"
  shows "\<exists>t. np_percentile (map (edge_length Node_IDs pts) (edge_pairs Edges)) 90 = Inr t \<and>
     Sparsify Node_IDs Edges pts =
       Inr (map (edge_segment Node_IDs pts)
             (filter (\<lambda>p. edge_length Node_IDs pts p \<le> t) (edge_pairs Edges)))"
proof -
  from assms(2) obtain t where
    t: "np_percentile (map (edge_length Node_IDs pts) (edge_pairs Edges)) 90 = Inr t"
    by (auto simp: np_percentile_def Let_def)
  then show ?thesis
    by (simp add: Sparsify_def Edge_Lengths_2D_ok[OF assms(1)] plot_edges_ok[OF assms(1)])
qed

theorem sparsification_keeps_edges_up_to_percentile_witness:
  "plottable [1, 2, 3] [(0, 0), (1, 0), (3, 0)] [(1, [2, 3]), (2, [3])] \<and>
   edge_pairs [(1, [2, 3]), (2, [3])] \<noteq> [] \<and>
   np_percentile (map (edge_length [1, 2, 3] [(0, 0), (1, 0), (3, 0)]) (edge_pairs [(1, [2, 3]), (2, [3])])) 90
     = Inr (14 / 5) \<and>
   Sparsify [1, 2, 3] [(1, [2, 3]), (2, [3])] [(0, 0), (1, 0), (3, 0)] =
     Inr [([0, 1], [0, 0]), ([1, 3], [0, 0])]"
proof -
  have p: "plottable [1, 2, 3] [(0, 0), (1, 0), (3, 0)] [(1, [2, 3]), (2, [3])]"
    by (simp add: plottable_def)
  have e: "edge_pairs [(1, [2, 3]), (2, [3])] \<noteq> []" by (simp add: edge_pairs_def)
  have q: "np_percentile (map (edge_length [1, 2, 3] [(0, 0), (1, 0), (3, 0)]) (edge_pairs [(1, [2, 3]), (2, [3])])) 90
     = Inr (14 / 5)"
    by (simp add: np_percentile_def edge_pairs_def edge_length_def point_of_def
        segment_length_horizontal)
  from sparsification_keeps_edges_up_to_percentile[OF p e] obtain t where
    t: "np_percentile (map (edge_length [1, 2, 3] [(0, 0), (1, 0), (3, 0)]) (edge_pairs [(1, [2, 3]), (2, [3])])) 90 = Inr t"
    and S: "Sparsify [1, 2, 3] [(1, [2, 3]), (2, [3])] [(0, 0), (1, 0), (3, 0)] =
       Inr (map (edge_segment [1, 2, 3] [(0, 0), (1, 0), (3, 0)])
             (filter (\<lambda>p. edge_length [1, 2, 3] [(0, 0), (1, 0), (3, 0)] p \<le> t)
                (edge_pairs [(1, [2, 3]), (2, [3])])))"
    by blast
  from t q have "t = 14 / 5" by simp
  with S have "Sparsify [1, 2, 3] [(1, [2, 3]), (2, [3])] [(0, 0), (1, 0), (3, 0)] =
     Inr [([0, 1], [0, 0]), ([1, 3], [0, 0])]"
    by (simp add: edge_pairs_def edge_length_def edge_segment_def point_of_def
        segment_length_horizontal Let_def)
  with p e q show ?thesis by blast
qed

end
